theory Spec2Isabelle
  imports Main "HOL-Library.Multiset"
begin

section \<open>Data model\<close>

text \<open>
  Every exception the modelled code raises is a \<^verbatim>\<open>ValueError\<close>: the explicit
  \<^verbatim>\<open>raise ValueError(...)\<close> statements, and \<^verbatim>\<open>list.remove(x)\<close> on a list without \<^verbatim>\<open>x\<close>.
\<close>

datatype error = ValueError

text \<open>
  \<^verbatim>\<open>core/card.py\<close>: the frozen dataclass \<^verbatim>\<open>Card(value, is_uppercase)\<close>. The field
  \<^verbatim>\<open>value\<close> is called \<open>val\<close> here. Equality of cards is equality of both fields, which
  is equality of records.
\<close>

record Card =
  val :: int
  is_uppercase :: bool

definition valid_card :: "Card \<Rightarrow> bool" where
  "valid_card c = (1 \<le> val c \<and> val c \<le> 10)"

text \<open>\<^verbatim>\<open>Card.__post_init__\<close>: construction raises outside 1..10.\<close>

definition mk_Card :: "int \<Rightarrow> bool \<Rightarrow> error + Card" where
  "mk_Card v u = (if \<not> (1 \<le> v \<and> v \<le> 10) then Inl ValueError
                  else Inr \<lparr>val = v, is_uppercase = u\<rparr>)"

text \<open>
  An entry of \<^verbatim>\<open>Hand.exposed_groups\<close>: the dictionary with the keys \<^verbatim>\<open>'type'\<close>,
  \<^verbatim>\<open>'cards'\<close> and \<^verbatim>\<open>'is_concealed'\<close> that \<^verbatim>\<open>Hand.add_exposed_group\<close> builds. The type
  is a Python string.
\<close>

record Group =
  g_type :: string
  g_cards :: "Card list"
  g_is_concealed :: bool

text \<open>\<^verbatim>\<open>core/hand.py\<close>: the three attributes of \<^verbatim>\<open>Hand\<close>.\<close>

record Hand =
  cards :: "Card list"
  drawn_card :: "Card option"
  exposed_groups :: "Group list"

section \<open>Hand operations\<close>

text \<open>\<^verbatim>\<open>Hand.draw_card\<close>: raises when a drawn card is pending, else stores the card.\<close>

definition draw_card :: "Card \<Rightarrow> Hand \<Rightarrow> error + Hand" where
  "draw_card c h =
     (if drawn_card h \<noteq> None then Inl ValueError
      else Inr (h\<lparr>drawn_card := Some c\<rparr>))"

text \<open>\<^verbatim>\<open>Hand.clear_drawn_card\<close>.\<close>

definition clear_drawn_card :: "Hand \<Rightarrow> Hand" where
  "clear_drawn_card h = h\<lparr>drawn_card := None\<rparr>"

text \<open>\<^verbatim>\<open>Hand.discard_drawn_card\<close>: raises when nothing is pending, else returns the
  pending card and clears it.\<close>

definition discard_drawn_card :: "Hand \<Rightarrow> error + (Card \<times> Hand)" where
  "discard_drawn_card h =
     (case drawn_card h of
        None \<Rightarrow> Inl ValueError
      | Some c \<Rightarrow> Inr (c, h\<lparr>drawn_card := None\<rparr>))"

text \<open>\<^verbatim>\<open>Hand.remove_card\<close>: guarded removal of the first equal card.\<close>

definition remove_card :: "Card \<Rightarrow> Hand \<Rightarrow> bool \<times> Hand" where
  "remove_card c h =
     (if c \<in> set (cards h) then (True, h\<lparr>cards := remove1 c (cards h)\<rparr>)
      else (False, h))"

text \<open>
  \<^verbatim>\<open>Hand.remove_cards\<close>. The first loop returns \<^verbatim>\<open>False\<close> at the first requested card
  that is not in the hand. The second loop calls \<^verbatim>\<open>self.cards.remove(card)\<close> for each
  requested card: \<^verbatim>\<open>list.remove\<close> deletes the first equal element and raises
  \<^verbatim>\<open>ValueError\<close> when there is none, and the removals made before the raise stay. The
  result therefore carries the hand as the call leaves it, also when it raises.
\<close>

fun remove_each :: "Card list \<Rightarrow> Card list \<Rightarrow> (error + unit) \<times> Card list" where
  "remove_each [] cs = (Inr (), cs)"
| "remove_each (c # rest) cs =
     (if c \<in> set cs then remove_each rest (remove1 c cs)
      else (Inl ValueError, cs))"

definition remove_cards :: "Card list \<Rightarrow> Hand \<Rightarrow> (error + bool) \<times> Hand" where
  "remove_cards req h =
     (if list_ex (\<lambda>c. c \<notin> set (cards h)) req then (Inr False, h)
      else (case remove_each req (cards h) of
              (Inl e, cs) \<Rightarrow> (Inl e, h\<lparr>cards := cs\<rparr>)
            | (Inr u, cs) \<Rightarrow> (Inr True, h\<lparr>cards := cs\<rparr>)))"

text \<open>\<^verbatim>\<open>Hand.get_total_count\<close>: concealed cards, the pending card, and the cards of
  every committed group.\<close>

definition get_total_count :: "Hand \<Rightarrow> nat" where
  "get_total_count h =
     (let exposed_count = sum_list (map (\<lambda>g. length (g_cards g)) (exposed_groups h));
          drawn_count = (if drawn_card h \<noteq> None then 1 else 0)
      in length (cards h) + drawn_count + exposed_count)"

text \<open>\<^verbatim>\<open>Hand.count_exact_card\<close>.\<close>

definition count_exact_card :: "Hand \<Rightarrow> Card \<Rightarrow> bool \<Rightarrow> nat" where
  "count_exact_card h target_card include_drawn =
     (let count = length (filter (\<lambda>c. c = target_card) (cards h))
      in if include_drawn \<and> drawn_card h = Some target_card then count + 1 else count)"

text \<open>\<^verbatim>\<open>Hand.add_exposed_group\<close>: appends a new group (the card list is copied).\<close>

definition add_exposed_group :: "string \<Rightarrow> Card list \<Rightarrow> bool \<Rightarrow> Hand \<Rightarrow> Hand" where
  "add_exposed_group group_type cs is_concealed h =
     h\<lparr>exposed_groups := exposed_groups h @
          [\<lparr>g_type = group_type, g_cards = cs, g_is_concealed = is_concealed\<rparr>]\<rparr>"

section \<open>Pattern matcher\<close>

text \<open>\<^verbatim>\<open>config/game_config.py\<close>.\<close>

definition SPECIAL_SEQUENCES :: "int list list" where
  "SPECIAL_SEQUENCES = [[1, 2, 3], [2, 7, 10]]"

definition MIN_HUXI_TO_WIN :: int where
  "MIN_HUXI_TO_WIN = 15"

definition BASE_SCORE :: int where
  "BASE_SCORE = 1"

definition HUXI_PER_EXTRA_SCORE :: int where
  "HUXI_PER_EXTRA_SCORE = 3"

text \<open>
  The grouping idiom of \<^verbatim>\<open>pattern_matcher.py\<close>,
  \<^verbatim>\<open>if key not in d: d[key] = []\<close> then \<^verbatim>\<open>d[key].append(x)\<close>, on a dictionary kept as
  an association list in insertion order (the order \<^verbatim>\<open>items()\<close> and \<^verbatim>\<open>keys()\<close>
  iterate in).
\<close>

fun dict_append :: "'k \<Rightarrow> 'v \<Rightarrow> ('k \<times> 'v list) list \<Rightarrow> ('k \<times> 'v list) list" where
  "dict_append k x [] = [(k, [x])]"
| "dict_append k x ((k', xs) # d) =
     (if k = k' then (k', xs @ [x]) # d else (k', xs) # dict_append k x d)"

definition group_by :: "('v \<Rightarrow> 'k) \<Rightarrow> 'v list \<Rightarrow> ('k \<times> 'v list) list" where
  "group_by key xs = foldl (\<lambda>d x. dict_append (key x) x d) [] xs"

definition card_key :: "Card \<Rightarrow> int \<times> bool" where
  "card_key c = (val c, is_uppercase c)"

text \<open>\<^verbatim>\<open>PatternMatcher.find_triplets\<close>.\<close>

definition find_triplets :: "Card list \<Rightarrow> Card list list" where
  "find_triplets cs =
     map (\<lambda>(key, card_list). take 3 card_list)
       (filter (\<lambda>(key, card_list). length card_list \<ge> 3) (group_by card_key cs))"

text \<open>\<^verbatim>\<open>PatternMatcher.find_pairs\<close>.\<close>

definition find_pairs :: "Card list \<Rightarrow> Card list list" where
  "find_pairs cs =
     map (\<lambda>(key, card_list). take 2 card_list)
       (filter (\<lambda>(key, card_list). length card_list \<ge> 2) (group_by card_key cs))"

text \<open>
  \<^verbatim>\<open>PatternMatcher.is_valid_sequence\<close> and \<^verbatim>\<open>is_special_sequence\<close>. \<^verbatim>\<open>cards[0]\<close> and
  the three reads of \<^verbatim>\<open>values\<close> come after the length test, so they are in range.
\<close>

definition is_valid_sequence :: "Card list \<Rightarrow> bool" where
  "is_valid_sequence cs =
     (if length cs \<noteq> 3 then False
      else if \<not> list_all (\<lambda>c. is_uppercase c = is_uppercase (cs ! 0)) cs then False
      else (let values = sort (map val cs) in
            if values \<in> set SPECIAL_SEQUENCES then True
            else values ! 1 = values ! 0 + 1 \<and> values ! 2 = values ! 1 + 1))"

definition is_special_sequence :: "Card list \<Rightarrow> bool" where
  "is_special_sequence cs =
     (if length cs \<noteq> 3 then False
      else if \<not> list_all (\<lambda>c. is_uppercase c = is_uppercase (cs ! 0)) cs then False
      else sort (map val cs) \<in> set SPECIAL_SEQUENCES)"

text \<open>
  \<^verbatim>\<open>PatternMatcher.find_sequences\<close>, one pass of its loop over
  \<^verbatim>\<open>is_uppercase in [False, True]\<close>. \<^verbatim>\<open>value_cards[v][0]\<close> is read only for a key \<open>v\<close>
  of the dictionary (the special sequences under the \<^verbatim>\<open>all(v in value_cards ...)\<close>
  guard, the ordinary ones for entries of \<^verbatim>\<open>sorted(value_cards.keys())\<close>), and every
  list stored in the dictionary has an element.
\<close>

definition first_of :: "(int \<times> Card list) list \<Rightarrow> int \<Rightarrow> Card" where
  "first_of value_cards v = hd (the (map_of value_cards v))"

definition sequences_of_case :: "bool \<Rightarrow> Card list \<Rightarrow> Card list list" where
  "sequences_of_case u cs =
     (let uppercase_cards = filter (\<lambda>c. is_uppercase c = u) cs;
          value_cards = group_by val uppercase_cards;
          special = concat (map (\<lambda>special_seq.
                      if list_all (\<lambda>v. v \<in> set (map fst value_cards)) special_seq
                      then [map (first_of value_cards) special_seq] else [])
                    SPECIAL_SEQUENCES);
          sorted_values = sort (map fst value_cards);
          ordinary = concat (map (\<lambda>i.
                      (let v1 = sorted_values ! i; v2 = sorted_values ! (i + 1);
                           v3 = sorted_values ! (i + 2) in
                       if v2 = v1 + 1 \<and> v3 = v2 + 1 then
                         (if [v1, v2, v3] \<notin> set SPECIAL_SEQUENCES
                          then [[first_of value_cards v1, first_of value_cards v2,
                                 first_of value_cards v3]]
                          else [])
                       else []))
                    [0..<length sorted_values - 2])
      in special @ ordinary)"

definition find_sequences :: "Card list \<Rightarrow> Card list list" where
  "find_sequences cs = sequences_of_case False cs @ sequences_of_case True cs"

text \<open>\<^verbatim>\<open>PatternMatcher.remove_cards_from_list\<close>: works on a copy.\<close>

definition remove_cards_from_list :: "Card list \<Rightarrow> Card list \<Rightarrow> Card list" where
  "remove_cards_from_list cs to_remove =
     fold (\<lambda>c remaining. if c \<in> set remaining then remove1 c remaining else remaining)
       to_remove cs"

section \<open>Huxi and score\<close>

text \<open>\<^verbatim>\<open>HuxiCalculator.calculate_triplet_huxi\<close>.\<close>

definition calculate_triplet_huxi :: "Card list \<Rightarrow> bool \<Rightarrow> error + int" where
  "calculate_triplet_huxi cs is_exposed =
     (if length cs \<noteq> 3 then Inl ValueError
      else if \<not> list_all (\<lambda>c. c = cs ! 0) cs then Inl ValueError
      else if is_exposed then Inr (if is_uppercase (cs ! 0) then 3 else 1)
      else Inr (if is_uppercase (cs ! 0) then 6 else 3))"

text \<open>\<^verbatim>\<open>HuxiCalculator.calculate_quadruplet_huxi\<close>.\<close>

definition calculate_quadruplet_huxi :: "Card list \<Rightarrow> bool \<Rightarrow> error + int" where
  "calculate_quadruplet_huxi cs is_exposed =
     (if length cs \<noteq> 4 then Inl ValueError
      else if \<not> list_all (\<lambda>c. c = cs ! 0) cs then Inl ValueError
      else if is_exposed then Inr (if is_uppercase (cs ! 0) then 9 else 6)
      else Inr (if is_uppercase (cs ! 0) then 12 else 9))"

text \<open>\<^verbatim>\<open>HuxiCalculator.calculate_sequence_huxi\<close>.\<close>

definition calculate_sequence_huxi :: "Card list \<Rightarrow> int" where
  "calculate_sequence_huxi cs =
     (if length cs \<noteq> 3 then 0
      else if \<not> is_valid_sequence cs then 0
      else if is_special_sequence cs then (if is_uppercase (cs ! 0) then 6 else 3)
      else 0)"

text \<open>
  The body of the loop over \<^verbatim>\<open>exposed_groups\<close> in
  \<^verbatim>\<open>HuxiCalculator.calculate_win_huxi\<close>: what one committed group adds to the total.
\<close>

definition group_huxi :: "Group \<Rightarrow> error + int" where
  "group_huxi g =
     (let group_type = g_type g; cs = g_cards g in
      if group_type = ''peng'' then calculate_triplet_huxi cs True
      else if group_type = ''wei'' then calculate_triplet_huxi cs False
      else if group_type = ''pao'' \<or> group_type = ''ti''
        then calculate_quadruplet_huxi cs (group_type = ''pao'')
      else if group_type = ''chi'' then Inr (calculate_sequence_huxi cs)
      else Inr 0)"

text \<open>The loop \<^verbatim>\<open>for x in xs: total_huxi += f(x)\<close>, stopping at the first raise.\<close>

fun add_huxi :: "('a \<Rightarrow> error + int) \<Rightarrow> 'a list \<Rightarrow> int \<Rightarrow> error + int" where
  "add_huxi f [] total_huxi = Inr total_huxi"
| "add_huxi f (x # xs) total_huxi =
     (case f x of Inl e \<Rightarrow> Inl e | Inr n \<Rightarrow> add_huxi f xs (total_huxi + n))"

text \<open>The dictionary \<^verbatim>\<open>_find_win_combination\<close> returns.\<close>

record WinCombination =
  triplets :: "Card list list"
  sequences :: "Card list list"
  pair :: "Card list"

text \<open>\<^verbatim>\<open>HuxiCalculator.calculate_win_huxi\<close> (it never reads \<^verbatim>\<open>all_cards\<close>).\<close>

definition calculate_win_huxi ::
    "Card list \<Rightarrow> Group list \<Rightarrow> WinCombination \<Rightarrow> error + int" where
  "calculate_win_huxi all_cards groups win_combination =
     (case add_huxi group_huxi groups 0 of
        Inl e \<Rightarrow> Inl e
      | Inr t1 \<Rightarrow>
          (case add_huxi (\<lambda>triplet. calculate_triplet_huxi triplet False)
                  (triplets win_combination) t1 of
             Inl e \<Rightarrow> Inl e
           | Inr t2 \<Rightarrow>
               add_huxi (\<lambda>s. Inr (calculate_sequence_huxi s))
                 (sequences win_combination) t2))"

text \<open>\<^verbatim>\<open>ScoreCalculator.calculate_score\<close>; \<^verbatim>\<open>//\<close> is floor division, as \<open>div\<close> on
  \<open>int\<close> is.\<close>

definition calculate_score :: "int \<Rightarrow> int" where
  "calculate_score huxi =
     (if huxi < MIN_HUXI_TO_WIN then 0
      else (let extra_score = (huxi - MIN_HUXI_TO_WIN) div HUXI_PER_EXTRA_SCORE;
                total_score = BASE_SCORE + extra_score
            in total_score))"

section \<open>Win checker\<close>

text \<open>
  \<^verbatim>\<open>collections.Counter(cards).items()\<close>: every distinct card with the number of its
  occurrences, in the order of first occurrence (a \<^verbatim>\<open>Counter\<close> is a dictionary, filled
  in the order of the list).
\<close>

fun counter_add :: "'a \<Rightarrow> ('a \<times> nat) list \<Rightarrow> ('a \<times> nat) list" where
  "counter_add x [] = [(x, 1)]"
| "counter_add x ((y, n) # d) =
     (if x = y then (y, n + 1) # d else (y, n) # counter_add x d)"

definition Counter :: "'a list \<Rightarrow> ('a \<times> nat) list" where
  "Counter xs = foldl (\<lambda>d x. counter_add x d) [] xs"

text \<open>
  The two removal loops of \<^verbatim>\<open>_find_win_combination\<close>:
  \<^verbatim>\<open>for _ in range(3): remaining.remove(card)\<close> and
  \<^verbatim>\<open>for c in card_list: remaining.remove(c)\<close>. \<^verbatim>\<open>list.remove\<close> raises on a missing
  element.
\<close>

fun remove_times :: "nat \<Rightarrow> Card \<Rightarrow> Card list \<Rightarrow> error + Card list" where
  "remove_times 0 c remaining = Inr remaining"
| "remove_times (Suc n) c remaining =
     (if c \<in> set remaining then remove_times n c (remove1 c remaining)
      else Inl ValueError)"

fun remove_listed :: "Card list \<Rightarrow> Card list \<Rightarrow> error + Card list" where
  "remove_listed [] remaining = Inr remaining"
| "remove_listed (c # card_list) remaining =
     (if c \<in> set remaining then remove_listed card_list (remove1 c remaining)
      else Inl ValueError)"

text \<open>
  The loop \<^verbatim>\<open>for card, count in card_count.items()\<close> of \<^verbatim>\<open>_find_win_combination\<close>
  (the forced-group extraction), on the two lists it updates.
\<close>

fun forced_loop ::
    "(Card \<times> nat) list \<Rightarrow> Card list list \<Rightarrow> Card list
       \<Rightarrow> error + (Card list list \<times> Card list)" where
  "forced_loop [] forced_triplets remaining = Inr (forced_triplets, remaining)"
| "forced_loop ((c, cnt) # items) forced_triplets remaining =
     (if cnt = 4 then
        (let card_list = filter (\<lambda>x. x = c) remaining in
         case remove_times 3 c remaining of
           Inl e \<Rightarrow> Inl e
         | Inr remaining' \<Rightarrow>
             forced_loop items (forced_triplets @ [take 3 card_list]) remaining')
      else if cnt = 3 then
        (let card_list = filter (\<lambda>x. x = c) remaining in
         case remove_listed card_list remaining of
           Inl e \<Rightarrow> Inl e
         | Inr remaining' \<Rightarrow>
             forced_loop items (forced_triplets @ [card_list]) remaining')
      else forced_loop items forced_triplets remaining)"

definition forced_groups :: "Card list \<Rightarrow> error + (Card list list \<times> Card list)" where
  "forced_groups cs = forced_loop (Counter cs) [] cs"

text \<open>
  The recursive search removes a candidate sequence whose cards are all in the list, so
  the list gets shorter: every candidate of \<^verbatim>\<open>find_sequences\<close> has three cards.
\<close>

lemma length_remove_cards_from_list_le:
  "length (remove_cards_from_list cs xs) \<le> length cs"
  unfolding remove_cards_from_list_def
proof (induction xs arbitrary: cs)
  case Nil
  then show ?case by simp
next
  case (Cons x xs)
  show ?case
  proof (cases "x \<in> set cs")
    case True
    have "length (fold (\<lambda>c remaining. if c \<in> set remaining then remove1 c remaining
             else remaining) xs (remove1 x cs)) \<le> length (remove1 x cs)"
      by (rule Cons.IH)
    also have "\<dots> \<le> length cs" by (simp add: length_remove1)
    finally show ?thesis using True by simp
  next
    case False
    then show ?thesis using Cons.IH [of cs] by simp
  qed
qed

lemma length_remove_cards_from_list_less:
  assumes "x \<in> set cs"
  shows "length (remove_cards_from_list cs (x # xs)) < length cs"
proof -
  have "remove_cards_from_list cs (x # xs) = remove_cards_from_list (remove1 x cs) xs"
    using assms by (simp add: remove_cards_from_list_def)
  moreover have "length (remove_cards_from_list (remove1 x cs) xs) \<le> length (remove1 x cs)"
    by (rule length_remove_cards_from_list_le)
  moreover have "length (remove1 x cs) < length cs"
    using assms by (simp add: length_remove1) (cases cs; simp)
  ultimately show ?thesis by simp
qed

lemma sequences_of_case_length:
  "s \<in> set (sequences_of_case u cs) \<Longrightarrow> length s = 3"
  by (auto simp: sequences_of_case_def Let_def SPECIAL_SEQUENCES_def split: if_splits)

lemma find_sequences_length:
  "s \<in> set (find_sequences cs) \<Longrightarrow> length s = 3"
  by (auto simp: find_sequences_def dest: sequences_of_case_length)

lemma find_sequences_decrease:
  assumes "s \<in> set (find_sequences cs)" and "list_all (\<lambda>c. c \<in> set cs) s"
  shows "length (remove_cards_from_list cs s) < length cs"
proof -
  from assms(1) have "length s = 3" by (rule find_sequences_length)
  then obtain x xs where s: "s = x # xs" by (cases s) auto
  with assms(2) have "x \<in> set cs" by simp
  then show ?thesis unfolding s by (rule length_remove_cards_from_list_less)
qed

text \<open>
  \<^verbatim>\<open>WinChecker._try_form_sequences_recursive\<close>: the loop returns \<^verbatim>\<open>True\<close> at the first
  candidate whose recursive call succeeds.
\<close>

function try_form_sequences_recursive :: "Card list \<Rightarrow> bool" where
  "try_form_sequences_recursive cs =
     (if length cs = 0 then True
      else if length cs mod 3 \<noteq> 0 then False
      else list_ex (\<lambda>s. if list_all (\<lambda>c. c \<in> set cs) s
                         then try_form_sequences_recursive (remove_cards_from_list cs s)
                         else False)
             (find_sequences cs))"
  by pat_completeness auto
termination
  by (relation "measure length") (auto intro: find_sequences_decrease)

declare try_form_sequences_recursive.simps [simp del]

text \<open>\<^verbatim>\<open>WinChecker._can_form_all_sequences\<close>.\<close>

definition can_form_all_sequences :: "Card list \<Rightarrow> bool" where
  "can_form_all_sequences cs =
     (if length cs = 0 then True
      else if length cs mod 3 \<noteq> 0 then False
      else try_form_sequences_recursive cs)"

text \<open>The result of the first iteration of a loop that returns one.\<close>

fun first_some :: "'a option list \<Rightarrow> 'a option" where
  "first_some [] = None"
| "first_some (None # rs) = first_some rs"
| "first_some (Some r # rs) = Some r"

text \<open>
  \<^verbatim>\<open>WinChecker._find_all_sequences\<close>: the loop returns at the first candidate whose
  recursive call does not return \<^verbatim>\<open>None\<close>.
\<close>

function find_all_sequences :: "Card list \<Rightarrow> Card list list option" where
  "find_all_sequences cs =
     (if length cs = 0 then Some []
      else if length cs mod 3 \<noteq> 0 then None
      else first_some (map (\<lambda>s.
             if list_all (\<lambda>c. c \<in> set cs) s
             then (case find_all_sequences (remove_cards_from_list cs s) of
                     Some rest_seqs \<Rightarrow> Some (s # rest_seqs)
                   | None \<Rightarrow> None)
             else None)
           (find_sequences cs)))"
  by pat_completeness auto
termination
  by (relation "measure length") (auto intro: find_sequences_decrease)

declare find_all_sequences.simps [simp del]

text \<open>
  \<^verbatim>\<open>WinChecker._try_find_sequences_and_pair\<close>. \<^verbatim>\<open>if sequences and ...\<close> is false for
  \<^verbatim>\<open>None\<close> and for the empty list.
\<close>

definition try_find_sequences_and_pair ::
    "Card list \<Rightarrow> (Card list list \<times> Card list) option" where
  "try_find_sequences_and_pair cs =
     (if length cs < 2 then None
      else first_some (map (\<lambda>p.
             (let remaining = remove_cards_from_list cs p in
              if length remaining mod 3 \<noteq> 0 then None
              else if can_form_all_sequences remaining then
                (case find_all_sequences remaining of
                   None \<Rightarrow> None
                 | Some seqs \<Rightarrow>
                     if seqs \<noteq> [] \<and> length seqs * 3 = length remaining
                     then Some (seqs, p) else None)
              else None))
           (find_pairs cs)))"

text \<open>\<^verbatim>\<open>WinChecker._find_win_combination\<close>.\<close>

definition find_win_combination :: "Card list \<Rightarrow> error + WinCombination option" where
  "find_win_combination cs =
     (if length cs \<noteq> 21 then Inr None
      else (case forced_groups cs of
              Inl e \<Rightarrow> Inl e
            | Inr (forced_triplets, remaining) \<Rightarrow>
                if length remaining mod 3 = 2 then
                  (case try_find_sequences_and_pair remaining of
                     Some (seqs, p) \<Rightarrow>
                       Inr (Some \<lparr>triplets = forced_triplets, sequences = seqs, pair = p\<rparr>)
                   | None \<Rightarrow> Inr None)
                else Inr None))"

text \<open>
  \<^verbatim>\<open>WinChecker.can_win\<close> on the values of a hand.

  \<open>win_query\<close> is the part of \<^verbatim>\<open>can_win\<close> after \<^verbatim>\<open>all_cards\<close> is built: the search,
  the huxi of the found combination, the comparison with \<^verbatim>\<open>MIN_HUXI_TO_WIN\<close>, as a
  function of the contents of \<^verbatim>\<open>all_cards\<close> and of \<^verbatim>\<open>hand.exposed_groups\<close>.

  \<open>all_cards_of\<close> is the local list \<^verbatim>\<open>all_cards\<close>: a copy of \<^verbatim>\<open>hand.cards\<close>, with the
  drawn card appended when there is one (a \<^verbatim>\<open>Card\<close> object is always true in
  \<^verbatim>\<open>if hand.drawn_card\<close>).

  What the method does to the objects it is handed is the subject of the model on a
  heap further down.
\<close>

definition win_query ::
    "Card list \<Rightarrow> Group list \<Rightarrow> error + (bool \<times> int \<times> WinCombination option)" where
  "win_query all_cards groups =
     (case find_win_combination all_cards of
        Inl e \<Rightarrow> Inl e
      | Inr None \<Rightarrow> Inr (False, 0, None)
      | Inr (Some win_combination) \<Rightarrow>
          (case calculate_win_huxi all_cards groups win_combination of
             Inl e \<Rightarrow> Inl e
           | Inr huxi \<Rightarrow>
               if huxi < MIN_HUXI_TO_WIN then Inr (False, huxi, Some win_combination)
               else Inr (True, huxi, Some win_combination)))"

definition all_cards_of :: "Hand \<Rightarrow> Card list" where
  "all_cards_of h = (case drawn_card h of None \<Rightarrow> cards h | Some d \<Rightarrow> cards h @ [d])"

definition can_win :: "Hand \<Rightarrow> error + (bool \<times> int \<times> WinCombination option)" where
  "can_win h = (let all_cards = all_cards_of h in win_query all_cards (exposed_groups h))"

section \<open>Player\<close>

text \<open>
  The test \<^verbatim>\<open>group['type'] == 'wei' and group['cards'] and group['cards'][0] == card\<close>
  that \<^verbatim>\<open>Hand.can_ti\<close>, \<^verbatim>\<open>Player.can_pao\<close>, \<^verbatim>\<open>Player.do_ti\<close> and \<^verbatim>\<open>Player.do_pao\<close>
  apply to a committed group.
\<close>

definition is_wei_of :: "Card \<Rightarrow> Group \<Rightarrow> bool" where
  "is_wei_of c g =
     (g_type g = ''wei'' \<and> (case g_cards g of [] \<Rightarrow> False | c0 # rest \<Rightarrow> c0 = c))"

text \<open>\<^verbatim>\<open>Hand.can_wei\<close> and \<^verbatim>\<open>Hand.can_ti\<close>.\<close>

definition can_wei :: "Hand \<Rightarrow> bool" where
  "can_wei h =
     (case drawn_card h of
        None \<Rightarrow> False
      | Some d \<Rightarrow> count_exact_card h d False = 2)"

definition can_ti :: "Hand \<Rightarrow> bool" where
  "can_ti h =
     (case drawn_card h of
        None \<Rightarrow> False
      | Some d \<Rightarrow>
          (let hand_count = count_exact_card h d False in
           if hand_count = 3 then True
           else list_ex (is_wei_of d) (exposed_groups h)))"

text \<open>\<^verbatim>\<open>Player.can_peng\<close>.\<close>

definition can_peng :: "Hand \<Rightarrow> Card \<Rightarrow> bool" where
  "can_peng h c = (count_exact_card h c False \<ge> 2)"

text \<open>
  \<^verbatim>\<open>Player.can_pao\<close>: \<^verbatim>\<open>wei_count\<close> is the size of the first committed group that
  passes the test, and 0 when none does.
\<close>

fun wei_count_of :: "Card \<Rightarrow> Group list \<Rightarrow> nat" where
  "wei_count_of c [] = 0"
| "wei_count_of c (g # gs) =
     (if is_wei_of c g then length (g_cards g) else wei_count_of c gs)"

definition can_pao :: "Hand \<Rightarrow> Card \<Rightarrow> bool" where
  "can_pao h c =
     (let hand_count = count_exact_card h c False;
          wei_count = wei_count_of c (exposed_groups h);
          total_count = hand_count + wei_count
      in total_count = 3)"

text \<open>
  \<^verbatim>\<open>Player.can_chi\<close>: the two nested loops over the positions \<open>i < j\<close> of the hand.
\<close>

definition can_chi :: "Hand \<Rightarrow> Card \<Rightarrow> Card list list" where
  "can_chi h c =
     concat (map (\<lambda>i.
       concat (map (\<lambda>j.
         (let card1 = cards h ! i; card2 = cards h ! j in
          if is_valid_sequence [c, card1, card2] then [[card1, card2]] else []))
         [i + 1..<length (cards h)]))
       [0..<length (cards h)])"

text \<open>
  \<^verbatim>\<open>Player.do_ti\<close>. The position of the first committed group that passes the test
  (\<^verbatim>\<open>wei_group_idx\<close>), the removal of the concealed copies through \<^verbatim>\<open>Hand.remove_card\<close>,
  and the operation itself. \<^verbatim>\<open>can_ti\<close> is false without a drawn card, so the raise of
  the first line covers that case.
\<close>

fun wei_group_idx :: "Card \<Rightarrow> Group list \<Rightarrow> nat option" where
  "wei_group_idx c [] = None"
| "wei_group_idx c (g # gs) =
     (if is_wei_of c g then Some 0
      else (case wei_group_idx c gs of None \<Rightarrow> None | Some i \<Rightarrow> Some (i + 1)))"

definition pop_at :: "nat \<Rightarrow> 'a list \<Rightarrow> 'a list" where
  "pop_at i xs = take i xs @ drop (i + 1) xs"

definition do_ti :: "Hand \<Rightarrow> error + Hand" where
  "do_ti h =
     (if \<not> can_ti h then Inl ValueError
      else (case drawn_card h of
              None \<Rightarrow> Inl ValueError
            | Some d \<Rightarrow>
                (case wei_group_idx d (exposed_groups h) of
                   Some i \<Rightarrow>
                     (let wei_cards = g_cards (exposed_groups h ! i);
                          ti_cards = wei_cards @ [d];
                          h1 = h\<lparr>exposed_groups := pop_at i (exposed_groups h)\<rparr>
                      in Inr (clear_drawn_card (add_exposed_group ''ti'' ti_cards False h1)))
                 | None \<Rightarrow>
                     (let same_cards = take 3 (filter (\<lambda>c. c = d) (cards h));
                          h1 = fold (\<lambda>c hh. snd (remove_card c hh)) same_cards h;
                          ti_cards = same_cards @ [d]
                      in Inr (clear_drawn_card (add_exposed_group ''ti'' ti_cards False h1))))))"

section \<open>Tiles for the concrete instances\<close>

text \<open>\<^verbatim>\<open>Card(v, False)\<close> and \<^verbatim>\<open>Card(v, True)\<close>.\<close>

definition minor :: "int \<Rightarrow> Card" where
  "minor v = \<lparr>val = v, is_uppercase = False\<rparr>"

definition major :: "int \<Rightarrow> Card" where
  "major v = \<lparr>val = v, is_uppercase = True\<rparr>"

text \<open>
  Every committed \<^verbatim>\<open>wei\<close> group holds three copies of one tile, as \<^verbatim>\<open>Player.do_wei\<close> builds
  them.
\<close>

definition wei_groups_well_formed :: "Hand \<Rightarrow> bool" where
  "wei_groups_well_formed h =
     list_all (\<lambda>g. g_type g = ''wei'' \<longrightarrow> (\<exists>c. g_cards g = [c, c, c])) (exposed_groups h)"

text \<open>
  The classes the forced-group extraction commits: an entry of the \<^verbatim>\<open>Counter\<close> with a
  count of 3 or 4.
\<close>

definition forced_class :: "Card \<times> nat \<Rightarrow> bool" where
  "forced_class p = (snd p = 3 \<or> snd p = 4)"

text \<open>
  A hand as it stands after a \<^verbatim>\<open>ti\<close> of four \<open>major 10\<close>, a discard and the next draw:
  4 committed tiles, 16 concealed tiles and the drawn tile, 21 in all. The 17 tiles
  outside the group are five sequences and the pair of \<open>major 8\<close>.
\<close>

definition ti_hand :: Hand where
  "ti_hand =
     \<lparr>cards = [minor 1, minor 2, minor 3, minor 4, minor 5, minor 6, minor 7, minor 8, minor 9,
               major 1, major 2, major 3, major 4, major 5, major 6, major 8],
      drawn_card = Some (major 8),
      exposed_groups = [\<lparr>g_type = ''ti'', g_cards = [major 10, major 10, major 10, major 10],
                         g_is_concealed = False\<rparr>]\<rparr>"

text \<open>
  A hand with a committed \<^verbatim>\<open>peng\<close> of \<open>minor 1\<close> and a committed \<^verbatim>\<open>wei\<close> of
  \<open>major 5\<close> that has drawn the fourth \<open>major 5\<close>.
\<close>

definition wei_hand :: Hand where
  "wei_hand =
     \<lparr>cards = [minor 2, minor 3],
      drawn_card = Some (major 5),
      exposed_groups =
        [\<lparr>g_type = ''peng'', g_cards = [minor 1, minor 1, minor 1], g_is_concealed = False\<rparr>,
         \<lparr>g_type = ''wei'', g_cards = [major 5, major 5, major 5], g_is_concealed = True\<rparr>]\<rparr>"

text \<open>
  The specification's sequence: three tiles of one rank whose sorted values are
  \<open>1, 2, 3\<close>, or \<open>2, 7, 10\<close>, or three consecutive integers within 1..10. It is written
  from the specification's sentence, to be compared with \<open>is_valid_sequence\<close>.
\<close>

definition sequence_as_specified :: "Card \<Rightarrow> Card \<Rightarrow> Card \<Rightarrow> bool" where
  "sequence_as_specified a b c =
     (is_uppercase a = is_uppercase b \<and> is_uppercase b = is_uppercase c
      \<and> (let vs = sort [val a, val b, val c] in
           vs = [1, 2, 3] \<or> vs = [2, 7, 10] \<or> list_ex (\<lambda>k. vs = [k, k + 1, k + 2]) [1..8]))"

text \<open>The pairs of positions \<open>i < j\<close> that the loops of \<^verbatim>\<open>can_chi\<close> visit, in their order.\<close>

definition index_pairs :: "nat \<Rightarrow> (nat \<times> nat) list" where
  "index_pairs n = concat (map (\<lambda>i. map (\<lambda>j. (i, j)) [i + 1..<n]) [0..<n])"

text \<open>A hand with two physical \<open>minor 4\<close> around a \<open>minor 5\<close>.\<close>

definition chi_hand :: Hand where
  "chi_hand =
     \<lparr>cards = [minor 4, minor 5, minor 4, major 5, minor 7, minor 10],
      drawn_card = None, exposed_groups = []\<rparr>"

text \<open>
  The copies of a tile that a player holds: concealed, pending, and inside committed
  groups. \<^verbatim>\<open>Deck._create_cards\<close> makes four copies of every tile, so a player who
  answers another player's discard of \<open>d\<close> holds at most three copies of \<open>d\<close>.
\<close>

definition copies_held :: "Hand \<Rightarrow> Card \<Rightarrow> nat" where
  "copies_held h d =
     count_list (cards h) d
     + (case drawn_card h of None \<Rightarrow> 0 | Some c \<Rightarrow> if c = d then 1 else 0)
     + sum_list (map (\<lambda>g. count_list (g_cards g) d) (exposed_groups h))"

text \<open>A hand with three concealed \<open>minor 7\<close> and a committed \<^verbatim>\<open>wei\<close> of \<open>minor 5\<close>.\<close>

definition pao_hand :: Hand where
  "pao_hand =
     \<lparr>cards = [minor 7, major 1, minor 7, minor 2, minor 7],
      drawn_card = None,
      exposed_groups =
        [\<lparr>g_type = ''wei'', g_cards = [minor 5, minor 5, minor 5], g_is_concealed = True\<rparr>]\<rparr>"

section \<open>The win query on a heap of objects\<close>

text \<open>
  The functions above compute on values. To state what \<^verbatim>\<open>WinChecker.can_win\<close> does to
  the objects it is handed, the query is modelled a second time on a heap. A list of
  \<^verbatim>\<open>Card\<close> objects is the kind of object a hand shares with the query, so every such
  list is a heap object: \<^verbatim>\<open>hand.cards\<close>, the \<^verbatim>\<open>'cards'\<close> list of every group, and every
  list of cards the query builds (copies, slices, comprehensions). The hand object with
  its three attributes, its list \<^verbatim>\<open>exposed_groups\<close> and each group dictionary are heap
  objects too. A \<^verbatim>\<open>Card\<close> is a frozen dataclass and is kept as a value. The
  dictionaries (\<^verbatim>\<open>card_counts\<close>, \<^verbatim>\<open>value_cards\<close>, the \<^verbatim>\<open>Counter\<close>), the lists of lists
  (\<^verbatim>\<open>pairs\<close>, \<^verbatim>\<open>sequences\<close>, \<^verbatim>\<open>forced_triplets\<close>) and the returned dictionary are
  created by the query from literals; they are kept as values that hold references.

  An address is a position of the heap. Every statement of the source that changes a
  list of cards (\<^verbatim>\<open>append\<close>, \<^verbatim>\<open>remove\<close>) is a write to the heap at the address its
  variable holds; \<^verbatim>\<open>copy()\<close>, a slice, a comprehension and \<^verbatim>\<open>[]\<close> allocate.
\<close>

type_synonym ref = nat

datatype obj =
    Cards "Card list"
  | Groups "ref list"
  | GroupDict string ref bool
  | HandObj ref "Card option" ref

type_synonym heap = "obj list"

text \<open>
  A run ends with a value or with a fault: an exception of the source, a read of an
  address that does not hold the expected kind of object (or of a missing key or
  element, which the guards of the source exclude), or the end of the fuel that bounds
  the depth of the two recursive searches.
\<close>

datatype fault = Raised error | Bad_access | Out_of_fuel

type_synonym 'a prog = "heap \<Rightarrow> (fault + 'a) \<times> heap"

definition ret :: "'a \<Rightarrow> 'a prog" where
  "ret v h = (Inr v, h)"

definition fail :: "fault \<Rightarrow> 'a prog" where
  "fail e h = (Inl e, h)"

definition bnd :: "'a prog \<Rightarrow> ('a \<Rightarrow> 'b prog) \<Rightarrow> 'b prog" where
  "bnd m k h = (case m h of (Inl e, h') \<Rightarrow> (Inl e, h') | (Inr v, h') \<Rightarrow> k v h')"

text \<open>
The operations on heap objects: allocation of a list of cards, reads, and the write
  to an existing list of cards.
\<close>

definition new_cards :: "Card list \<Rightarrow> ref prog" where
  "new_cards cs h = (Inr (length h), h @ [Cards cs])"

definition get_cards :: "ref \<Rightarrow> Card list prog" where
  "get_cards r h =
     (if r < length h
      then (case h ! r of Cards cs \<Rightarrow> (Inr cs, h) | _ \<Rightarrow> (Inl Bad_access, h))
      else (Inl Bad_access, h))"

definition put_cards :: "ref \<Rightarrow> Card list \<Rightarrow> unit prog" where
  "put_cards r cs h =
     (if r < length h
      then (case h ! r of Cards old \<Rightarrow> (Inr (), h[r := Cards cs]) | _ \<Rightarrow> (Inl Bad_access, h))
      else (Inl Bad_access, h))"

definition get_groups :: "ref \<Rightarrow> ref list prog" where
  "get_groups r h =
     (if r < length h
      then (case h ! r of Groups gs \<Rightarrow> (Inr gs, h) | _ \<Rightarrow> (Inl Bad_access, h))
      else (Inl Bad_access, h))"

definition get_group :: "ref \<Rightarrow> (string \<times> ref \<times> bool) prog" where
  "get_group r h =
     (if r < length h
      then (case h ! r of GroupDict t c b \<Rightarrow> (Inr (t, c, b), h) | _ \<Rightarrow> (Inl Bad_access, h))
      else (Inl Bad_access, h))"

definition get_hand :: "ref \<Rightarrow> (ref \<times> Card option \<times> ref) prog" where
  "get_hand r h =
     (if r < length h
      then (case h ! r of HandObj c d g \<Rightarrow> (Inr (c, d, g), h) | _ \<Rightarrow> (Inl Bad_access, h))
      else (Inl Bad_access, h))"

text \<open>
\<^verbatim>\<open>xs.copy()\<close>, \<^verbatim>\<open>xs.append(c)\<close> and \<^verbatim>\<open>xs.remove(c)\<close> on a list of cards.
\<close>

definition list_copy :: "ref \<Rightarrow> ref prog" where
  "list_copy r = bnd (get_cards r) new_cards"

definition list_append :: "ref \<Rightarrow> Card \<Rightarrow> unit prog" where
  "list_append r c = bnd (get_cards r) (\<lambda>cs. put_cards r (cs @ [c]))"

definition list_remove :: "ref \<Rightarrow> Card \<Rightarrow> unit prog" where
  "list_remove r c =
     bnd (get_cards r) (\<lambda>cs.
       if c \<in> set cs then put_cards r (remove1 c cs) else fail (Raised ValueError))"

text \<open>
  The loops of the source: a loop that updates local variables, a loop that returns at
  the first iteration with a result, a loop that returns \<^verbatim>\<open>True\<close> at the first iteration
  that succeeds, and a list comprehension.
\<close>

fun fold_prog :: "('a \<Rightarrow> 's \<Rightarrow> 's prog) \<Rightarrow> 'a list \<Rightarrow> 's \<Rightarrow> 's prog" where
  "fold_prog f [] s = ret s"
| "fold_prog f (x # xs) s = bnd (f x s) (fold_prog f xs)"

fun first_result :: "('a \<Rightarrow> 'b option prog) \<Rightarrow> 'a list \<Rightarrow> 'b option prog" where
  "first_result f [] = ret None"
| "first_result f (x # xs) =
     bnd (f x) (\<lambda>r. case r of Some v \<Rightarrow> ret (Some v) | None \<Rightarrow> first_result f xs)"

fun first_true :: "('a \<Rightarrow> bool prog) \<Rightarrow> 'a list \<Rightarrow> bool prog" where
  "first_true f [] = ret False"
| "first_true f (x # xs) = bnd (f x) (\<lambda>b. if b then ret True else first_true f xs)"

fun map_prog :: "('a \<Rightarrow> 'b prog) \<Rightarrow> 'a list \<Rightarrow> 'b list prog" where
  "map_prog f [] = ret []"
| "map_prog f (x # xs) = bnd (f x) (\<lambda>y. bnd (map_prog f xs) (\<lambda>ys. ret (y # ys)))"

text \<open>
  \<open>frames n m Q\<close>: from a heap with at least \<open>n\<close> objects, the run \<open>m\<close> never shrinks
  the heap, leaves the objects at the addresses below \<open>n\<close> as they are, and a value it
  returns satisfies \<open>Q\<close>.
\<close>

definition frames :: "nat \<Rightarrow> 'a prog \<Rightarrow> ('a \<Rightarrow> bool) \<Rightarrow> bool" where
  "frames n m Q =
     (\<forall>h. n \<le> length h \<longrightarrow>
        (case m h of (res, h') \<Rightarrow>
           length h \<le> length h' \<and> (\<forall>a < n. h' ! a = h ! a)
           \<and> (case res of Inl e \<Rightarrow> True | Inr v \<Rightarrow> Q v)))"

text \<open>
A dictionary all of whose lists were allocated at or above \<open>n\<close>.
\<close>

definition fresh_dict :: "nat \<Rightarrow> ('k \<times> ref) list \<Rightarrow> bool" where
  "fresh_dict n d = list_all (\<lambda>p. n \<le> snd p) d"

text \<open>
\<^verbatim>\<open>PatternMatcher.remove_cards_from_list\<close>: \<^verbatim>\<open>remaining = cards.copy()\<close>, then
  \<^verbatim>\<open>remaining.remove(card)\<close> for every card of \<^verbatim>\<open>to_remove\<close> that is in it.
\<close>

definition remove_cards_from_list_heap :: "ref \<Rightarrow> ref \<Rightarrow> ref prog" where
  "remove_cards_from_list_heap cards_r to_remove =
     bnd (list_copy cards_r) (\<lambda>remaining.
     bnd (get_cards to_remove) (\<lambda>removed.
     bnd (fold_prog (\<lambda>c u.
            bnd (get_cards remaining) (\<lambda>rem.
              if c \<in> set rem then list_remove remaining c else ret ()))
          removed ()) (\<lambda>u.
     ret remaining)))"

text \<open>
The grouping loops of \<^verbatim>\<open>find_pairs\<close> and \<^verbatim>\<open>find_sequences\<close>:
  \<^verbatim>\<open>if key not in d: d[key] = []\<close>, then \<^verbatim>\<open>d[key].append(card)\<close>.
\<close>

definition group_step :: "'k \<Rightarrow> Card \<Rightarrow> ('k \<times> ref) list \<Rightarrow> ('k \<times> ref) list prog" where
  "group_step key c d =
     (case map_of d key of
        None \<Rightarrow> bnd (new_cards []) (\<lambda>r. bnd (list_append r c) (\<lambda>u. ret (d @ [(key, r)])))
      | Some r \<Rightarrow> bnd (list_append r c) (\<lambda>u. ret d))"

definition group_by_heap :: "(Card \<Rightarrow> 'k) \<Rightarrow> Card list \<Rightarrow> ('k \<times> ref) list prog" where
  "group_by_heap key cs = fold_prog (\<lambda>c d. group_step (key c) c d) cs []"

text \<open>
\<^verbatim>\<open>PatternMatcher.find_pairs\<close>; \<^verbatim>\<open>card_list[:2]\<close> is a new list.
\<close>

definition find_pairs_heap :: "ref \<Rightarrow> ref list prog" where
  "find_pairs_heap cards_r =
     bnd (get_cards cards_r) (\<lambda>cs.
     bnd (group_by_heap card_key cs) (\<lambda>card_counts.
     fold_prog (\<lambda>(key, card_list) pairs.
         bnd (get_cards card_list) (\<lambda>cl.
           if length cl \<ge> 2 then bnd (new_cards (take 2 cl)) (\<lambda>p. ret (pairs @ [p]))
           else ret pairs))
       card_counts []))"

text \<open>
\<^verbatim>\<open>PatternMatcher.find_sequences\<close>: \<^verbatim>\<open>value_cards[v][0]\<close>, one pass of the loop over
  \<^verbatim>\<open>is_uppercase in [False, True]\<close> on the list \<^verbatim>\<open>sequences\<close> built so far, and the
  function.
\<close>

definition first_of_heap :: "(int \<times> ref) list \<Rightarrow> int \<Rightarrow> Card prog" where
  "first_of_heap value_cards v =
     (case map_of value_cards v of
        None \<Rightarrow> fail Bad_access
      | Some r \<Rightarrow> bnd (get_cards r) (\<lambda>cl. case cl of [] \<Rightarrow> fail Bad_access | c # rest \<Rightarrow> ret c))"

definition sequences_of_case_heap :: "bool \<Rightarrow> ref \<Rightarrow> ref list \<Rightarrow> ref list prog" where
  "sequences_of_case_heap u cards_r seqs0 =
     bnd (get_cards cards_r) (\<lambda>cs.
     bnd (new_cards (filter (\<lambda>c. is_uppercase c = u) cs)) (\<lambda>uppercase_cards.
     bnd (get_cards uppercase_cards) (\<lambda>ucs.
     bnd (group_by_heap val ucs) (\<lambda>value_cards.
     bnd (fold_prog (\<lambda>special_seq seqs.
            if list_all (\<lambda>v. v \<in> set (map fst value_cards)) special_seq
            then bnd (map_prog (first_of_heap value_cards) special_seq) (\<lambda>sc.
                 bnd (new_cards sc) (\<lambda>s. ret (seqs @ [s])))
            else ret seqs)
          SPECIAL_SEQUENCES seqs0) (\<lambda>seqs1.
     (let sorted_values = sort (map fst value_cards) in
      fold_prog (\<lambda>i seqs.
          (let v1 = sorted_values ! i; v2 = sorted_values ! (i + 1);
               v3 = sorted_values ! (i + 2) in
           if v2 = v1 + 1 \<and> v3 = v2 + 1 then
             (if [v1, v2, v3] \<notin> set SPECIAL_SEQUENCES
              then bnd (map_prog (first_of_heap value_cards) [v1, v2, v3]) (\<lambda>sc.
                   bnd (new_cards sc) (\<lambda>s. ret (seqs @ [s])))
              else ret seqs)
           else ret seqs))
        [0..<length sorted_values - 2] seqs1))))))"

definition find_sequences_heap :: "ref \<Rightarrow> ref list prog" where
  "find_sequences_heap cards_r =
     bnd (sequences_of_case_heap False cards_r []) (\<lambda>seqs.
     sequences_of_case_heap True cards_r seqs)"

text \<open>
\<^verbatim>\<open>WinChecker._try_form_sequences_recursive\<close> and \<^verbatim>\<open>_can_form_all_sequences\<close>.
\<close>

fun try_form_sequences_recursive_heap :: "nat \<Rightarrow> ref \<Rightarrow> bool prog" where
  "try_form_sequences_recursive_heap 0 cards_r = fail Out_of_fuel"
| "try_form_sequences_recursive_heap (Suc fuel) cards_r =
     bnd (get_cards cards_r) (\<lambda>cs.
       if length cs = 0 then ret True
       else if length cs mod 3 \<noteq> 0 then ret False
       else bnd (find_sequences_heap cards_r) (\<lambda>possible_seqs.
            first_true (\<lambda>s.
              bnd (get_cards s) (\<lambda>sc.
              bnd (get_cards cards_r) (\<lambda>cs'.
                if list_all (\<lambda>c. c \<in> set cs') sc
                then bnd (remove_cards_from_list_heap cards_r s) (\<lambda>remaining.
                     try_form_sequences_recursive_heap fuel remaining)
                else ret False)))
              possible_seqs))"

definition can_form_all_sequences_heap :: "nat \<Rightarrow> ref \<Rightarrow> bool prog" where
  "can_form_all_sequences_heap fuel cards_r =
     bnd (get_cards cards_r) (\<lambda>cs.
       if length cs = 0 then ret True
       else if length cs mod 3 \<noteq> 0 then ret False
       else try_form_sequences_recursive_heap fuel cards_r)"

text \<open>
\<^verbatim>\<open>WinChecker._find_all_sequences\<close>.
\<close>

fun find_all_sequences_heap :: "nat \<Rightarrow> ref \<Rightarrow> ref list option prog" where
  "find_all_sequences_heap 0 cards_r = fail Out_of_fuel"
| "find_all_sequences_heap (Suc fuel) cards_r =
     bnd (get_cards cards_r) (\<lambda>cs.
       if length cs = 0 then ret (Some [])
       else if length cs mod 3 \<noteq> 0 then ret None
       else bnd (find_sequences_heap cards_r) (\<lambda>possible_seqs.
            first_result (\<lambda>s.
              bnd (get_cards s) (\<lambda>sc.
              bnd (get_cards cards_r) (\<lambda>cs'.
                if list_all (\<lambda>c. c \<in> set cs') sc
                then bnd (remove_cards_from_list_heap cards_r s) (\<lambda>remaining.
                     bnd (find_all_sequences_heap fuel remaining) (\<lambda>rest_seqs.
                       case rest_seqs of
                         Some rest \<Rightarrow> ret (Some (s # rest))
                       | None \<Rightarrow> ret None))
                else ret None)))
              possible_seqs))"

text \<open>
\<^verbatim>\<open>WinChecker._try_find_sequences_and_pair\<close>.
\<close>

definition try_find_sequences_and_pair_heap ::
    "nat \<Rightarrow> ref \<Rightarrow> (ref list \<times> ref) option prog" where
  "try_find_sequences_and_pair_heap fuel cards_r =
     bnd (get_cards cards_r) (\<lambda>cs.
       if length cs < 2 then ret None
       else bnd (find_pairs_heap cards_r) (\<lambda>pairs.
            first_result (\<lambda>p.
              bnd (remove_cards_from_list_heap cards_r p) (\<lambda>remaining.
              bnd (get_cards remaining) (\<lambda>rem.
                if length rem mod 3 \<noteq> 0 then ret None
                else bnd (can_form_all_sequences_heap fuel remaining) (\<lambda>ok.
                  if ok then
                    bnd (find_all_sequences_heap fuel remaining) (\<lambda>found.
                    bnd (get_cards remaining) (\<lambda>rem'.
                      case found of
                        None \<Rightarrow> ret None
                      | Some seqs \<Rightarrow>
                          if seqs \<noteq> [] \<and> length seqs * 3 = length rem'
                          then ret (Some (seqs, p)) else ret None))
                  else ret None))))
              pairs))"

text \<open>
The removal loops and the forced-group extraction of \<^verbatim>\<open>_find_win_combination\<close>,
  writing to the list \<^verbatim>\<open>remaining\<close>.
\<close>

fun remove_times_heap :: "nat \<Rightarrow> Card \<Rightarrow> ref \<Rightarrow> unit prog" where
  "remove_times_heap 0 c remaining = ret ()"
| "remove_times_heap (Suc n) c remaining =
     bnd (list_remove remaining c) (\<lambda>u. remove_times_heap n c remaining)"

definition remove_listed_heap :: "ref \<Rightarrow> ref \<Rightarrow> unit prog" where
  "remove_listed_heap card_list remaining =
     bnd (get_cards card_list) (\<lambda>cl.
     fold_prog (\<lambda>c u. list_remove remaining c) cl ())"

fun forced_loop_heap :: "(Card \<times> nat) list \<Rightarrow> ref list \<Rightarrow> ref \<Rightarrow> ref list prog" where
  "forced_loop_heap [] forced_triplets remaining = ret forced_triplets"
| "forced_loop_heap ((c, cnt) # items) forced_triplets remaining =
     (if cnt = 4 then
        bnd (get_cards remaining) (\<lambda>rem.
        bnd (new_cards (filter (\<lambda>x. x = c) rem)) (\<lambda>card_list.
        bnd (get_cards card_list) (\<lambda>cl.
        bnd (new_cards (take 3 cl)) (\<lambda>first3.
        bnd (remove_times_heap 3 c remaining) (\<lambda>u.
        forced_loop_heap items (forced_triplets @ [first3]) remaining)))))
      else if cnt = 3 then
        bnd (get_cards remaining) (\<lambda>rem.
        bnd (new_cards (filter (\<lambda>x. x = c) rem)) (\<lambda>card_list.
        bnd (remove_listed_heap card_list remaining) (\<lambda>u.
        forced_loop_heap items (forced_triplets @ [card_list]) remaining)))
      else forced_loop_heap items forced_triplets remaining)"

text \<open>
The dictionary \<^verbatim>\<open>_find_win_combination\<close> returns, and the function:
  \<^verbatim>\<open>remaining = cards.copy()\<close> comes before \<^verbatim>\<open>Counter(cards)\<close>.
\<close>

record WinCombination_refs =
  triplets_at :: "ref list"
  sequences_at :: "ref list"
  pair_at :: ref

definition find_win_combination_heap :: "nat \<Rightarrow> ref \<Rightarrow> WinCombination_refs option prog" where
  "find_win_combination_heap fuel cards_r =
     bnd (get_cards cards_r) (\<lambda>cs.
       if length cs \<noteq> 21 then ret None
       else bnd (list_copy cards_r) (\<lambda>remaining.
            bnd (get_cards cards_r) (\<lambda>counted.
            bnd (forced_loop_heap (Counter counted) [] remaining) (\<lambda>forced_triplets.
            bnd (get_cards remaining) (\<lambda>rem.
              if length rem mod 3 = 2 then
                bnd (try_find_sequences_and_pair_heap fuel remaining) (\<lambda>result.
                  case result of
                    Some (seqs, p) \<Rightarrow>
                      ret (Some \<lparr>triplets_at = forced_triplets, sequences_at = seqs,
                                  pair_at = p\<rparr>)
                  | None \<Rightarrow> ret None)
              else ret None)))))"

text \<open>
\<^verbatim>\<open>HuxiCalculator.calculate_win_huxi\<close>: it only reads. The scorers of one group are
  the functions on values, applied to what the heap holds; an exception they raise is
  a fault of the run.
\<close>

definition lift_error :: "error + 'a \<Rightarrow> 'a prog" where
  "lift_error r = (case r of Inl e \<Rightarrow> fail (Raised e) | Inr v \<Rightarrow> ret v)"

definition group_huxi_heap :: "ref \<Rightarrow> int prog" where
  "group_huxi_heap g =
     bnd (get_group g) (\<lambda>(group_type, cards_r, concealed).
     bnd (get_cards cards_r) (\<lambda>cs.
     lift_error (group_huxi \<lparr>g_type = group_type, g_cards = cs, g_is_concealed = concealed\<rparr>)))"

definition calculate_win_huxi_heap :: "ref \<Rightarrow> ref \<Rightarrow> WinCombination_refs \<Rightarrow> int prog" where
  "calculate_win_huxi_heap all_cards groups_r win_combination =
     bnd (get_groups groups_r) (\<lambda>groups.
     bnd (fold_prog (\<lambda>g total_huxi.
            bnd (group_huxi_heap g) (\<lambda>n. ret (total_huxi + n)))
          groups 0) (\<lambda>t1.
     bnd (fold_prog (\<lambda>triplet total_huxi.
            bnd (get_cards triplet) (\<lambda>cs.
            bnd (lift_error (calculate_triplet_huxi cs False)) (\<lambda>n. ret (total_huxi + n))))
          (triplets_at win_combination) t1) (\<lambda>t2.
     fold_prog (\<lambda>s total_huxi.
         bnd (get_cards s) (\<lambda>cs. ret (total_huxi + calculate_sequence_huxi cs)))
       (sequences_at win_combination) t2)))"

text \<open>
\<^verbatim>\<open>WinChecker.can_win\<close> on the address of a hand object. Every read of an attribute of
  \<^verbatim>\<open>hand\<close> is a read of the heap.
\<close>

definition can_win_heap ::
    "nat \<Rightarrow> ref \<Rightarrow> (bool \<times> int \<times> WinCombination_refs option) prog" where
  "can_win_heap fuel hand =
     bnd (get_hand hand) (\<lambda>(hand_cards, drawn0, groups0).
     bnd (list_copy hand_cards) (\<lambda>all_cards.
     bnd (get_hand hand) (\<lambda>(cards1, drawn, groups1).
     bnd (case drawn of None \<Rightarrow> ret () | Some d \<Rightarrow> list_append all_cards d) (\<lambda>u.
     bnd (find_win_combination_heap fuel all_cards) (\<lambda>win_combination.
       case win_combination of
         None \<Rightarrow> ret (False, 0, None)
       | Some comb \<Rightarrow>
           bnd (get_hand hand) (\<lambda>(cards2, drawn2, exposed_groups).
           bnd (calculate_win_huxi_heap all_cards exposed_groups comb) (\<lambda>huxi.
             if huxi < MIN_HUXI_TO_WIN then ret (False, huxi, Some comb)
             else ret (True, huxi, Some comb))))))))"

text \<open>
What the heap holds at an address: a list of cards, a group, a list of groups, and a
  hand with its concealed tiles, its pending drawn tile and its committed groups.
\<close>

definition cards_in :: "heap \<Rightarrow> ref \<Rightarrow> Card list option" where
  "cards_in h r =
     (if r < length h then (case h ! r of Cards cs \<Rightarrow> Some cs | _ \<Rightarrow> None) else None)"

definition group_in :: "heap \<Rightarrow> ref \<Rightarrow> Group option" where
  "group_in h r =
     (if r < length h
      then (case h ! r of
              GroupDict t c b \<Rightarrow>
                (case cards_in h c of
                   Some cs \<Rightarrow> Some \<lparr>g_type = t, g_cards = cs, g_is_concealed = b\<rparr>
                 | None \<Rightarrow> None)
            | _ \<Rightarrow> None)
      else None)"

definition groups_in :: "heap \<Rightarrow> ref \<Rightarrow> Group list option" where
  "groups_in h r =
     (if r < length h
      then (case h ! r of Groups gs \<Rightarrow> those (map (group_in h) gs) | _ \<Rightarrow> None)
      else None)"

definition hand_in :: "heap \<Rightarrow> ref \<Rightarrow> Hand option" where
  "hand_in h r =
     (if r < length h
      then (case h ! r of
              HandObj c d g \<Rightarrow>
                (case (cards_in h c, groups_in h g) of
                   (Some cs, Some gs) \<Rightarrow>
                     Some \<lparr>cards = cs, drawn_card = d, exposed_groups = gs\<rparr>
                 | _ \<Rightarrow> None)
            | _ \<Rightarrow> None)
      else None)"

text \<open>
A heap with two hands: at address 2 a hand of 20 concealed tiles that has drawn a
  tile, at address 7 a hand with a committed \<^verbatim>\<open>wei\<close> group.
\<close>

definition example_heap :: heap where
  "example_heap =
     [Cards [minor 1, minor 1, minor 1, minor 2, minor 3, minor 4, minor 5, minor 6, minor 7,
             minor 8, minor 9, minor 10, major 1, major 2, major 3, major 4, major 5,
             major 6, major 7, major 8],
      Groups [],
      HandObj 0 (Some (major 9)) 1,
      Cards [minor 2, minor 3],
      Cards [major 5, major 5, major 5],
      GroupDict ''wei'' 4 True,
      Groups [5],
      HandObj 3 (Some (minor 4)) 6]"

section \<open>Auxiliary lemmas\<close>

lemma wei_count_of_wf:
  assumes "list_all (\<lambda>g. g_type g = ''wei'' \<longrightarrow> (\<exists>c. g_cards g = [c, c, c])) gs"
  shows "wei_count_of d gs =
     (if \<exists>g \<in> set gs. g_type g = ''wei'' \<and> g_cards g = [d, d, d] then 3 else 0)"
  using assms
proof (induction gs)
  case Nil
  then show ?case by simp
next
  case (Cons g gs)
  then show ?case by (auto simp: is_wei_of_def split: list.splits)
qed

subsection \<open>The forced-group extraction\<close>

lemma counter_add_keys:
  "map fst (counter_add x d) = (if x \<in> set (map fst d) then map fst d else map fst d @ [x])"
  by (induction d) (force+)

lemma counter_add_mem:
  assumes "distinct (map fst d)"
  shows "(c, n) \<in> set (counter_add x d) \<longleftrightarrow>
           (if c = x then (if x \<in> set (map fst d) then n > 0 \<and> (c, n - 1) \<in> set d else n = 1)
            else (c, n) \<in> set d)"
  using assms
proof (induction d)
  case Nil
  then show ?case by auto
next
  case (Cons p d)
  obtain y m where p: "p = (y, m)" by (cases p)
  from Cons.prems have dist: "distinct (map fst d)" and notin: "y \<notin> set (map fst d)"
    by (simp_all add: p)
  show ?case
  proof (cases "x = y")
    case True
    with notin show ?thesis by (auto simp: p rev_image_eqI)
  next
    case False
    with Cons.IH [OF dist] notin show ?thesis by (auto simp: p rev_image_eqI)
  qed
qed

lemma Counter_snoc: "Counter (xs @ [x]) = counter_add x (Counter xs)"
  by (simp add: Counter_def)

lemma Counter_keys: "distinct (map fst (Counter xs)) \<and> set (map fst (Counter xs)) = set xs"
proof (induction xs rule: rev_induct)
  case Nil
  then show ?case by (simp add: Counter_def)
next
  case (snoc x xs)
  then show ?case by (auto simp: Counter_snoc counter_add_keys)
qed

lemma Counter_mem: "(c, n) \<in> set (Counter xs) \<longleftrightarrow> c \<in> set xs \<and> n = count_list xs c"
proof (induction xs arbitrary: c n rule: rev_induct)
  case Nil
  then show ?case by (simp add: Counter_def)
next
  case (snoc x xs)
  have d: "distinct (map fst (Counter xs))" and s: "set (map fst (Counter xs)) = set xs"
    using Counter_keys [of xs] by simp_all
  show ?case
    unfolding Counter_snoc counter_add_mem [OF d] s
    using snoc.IH by (auto simp: count_list_0_iff)
qed


lemma count_list_remove1:
  "count_list (remove1 a xs) x =
     (if x = a \<and> a \<in> set xs then count_list xs x - 1 else count_list xs x)"
  by (induction xs) auto

lemma filter_eq_replicate: "filter (\<lambda>x. x = c) xs = replicate (count_list xs c) c"
  by (induction xs) auto

lemma remove_listed_replicate: "remove_listed (replicate n c) r = remove_times n c r"
  by (induction n arbitrary: r) auto

lemma remove_times_ok:
  assumes "n \<le> count_list r c"
  shows "\<exists>R. remove_times n c r = Inr R \<and> length R + n = length r
           \<and> (\<forall>x. count_list R x = (if x = c then count_list r c - n else count_list r x))"
  using assms
proof (induction n arbitrary: r)
  case 0
  then show ?case by simp
next
  case (Suc n)
  from Suc.prems have mem: "c \<in> set r"
    by (metis Suc_le_D count_list_0_iff nat.distinct(1))
  have "n \<le> count_list (remove1 c r) c"
    using Suc.prems mem by (simp add: count_list_remove1)
  from Suc.IH [OF this] obtain R where R: "remove_times n c (remove1 c r) = Inr R"
      "length R + n = length (remove1 c r)"
      "\<forall>x. count_list R x =
         (if x = c then count_list (remove1 c r) c - n else count_list (remove1 c r) x)"
    by blast
  have len: "length (remove1 c r) + 1 = length r"
    using mem by (simp add: length_remove1) (cases r; simp)
  show ?case
  proof (intro exI [of _ R] conjI allI)
    show "remove_times (Suc n) c r = Inr R" using mem R(1) by simp
    show "length R + Suc n = length r" using R(2) len by simp
    fix x
    show "count_list R x = (if x = c then count_list r c - Suc n else count_list r x)"
      using R(3) mem by (simp add: count_list_remove1)
  qed
qed

lemma forced_loop_char:
  assumes "distinct (map fst items)"
    and "\<forall>p \<in> set items. count_list remaining (fst p) = snd p"
  shows "\<exists>R. forced_loop items forced remaining =
              Inr (forced @ map (\<lambda>p. replicate 3 (fst p)) (filter forced_class items), R)
           \<and> length R + 3 * length (filter forced_class items) = length remaining
           \<and> (\<forall>x. count_list R x =
                 (if \<exists>p \<in> set items. fst p = x \<and> forced_class p
                  then count_list remaining x - 3 else count_list remaining x))"
  using assms
proof (induction items arbitrary: forced remaining)
  case Nil
  then show ?case by simp
next
  case (Cons p items)
  obtain c n where p: "p = (c, n)" by (cases p)
  from Cons.prems have dist: "distinct (map fst items)" and notin: "c \<notin> fst ` set items"
    and cnt: "count_list remaining c = n"
    and rest: "\<forall>q \<in> set items. count_list remaining (fst q) = snd q"
    by (auto simp: p)
  show ?case
  proof (cases "forced_class p")
    case False
    then have n: "n \<noteq> 3" "n \<noteq> 4" by (auto simp: forced_class_def p)
    from Cons.IH [OF dist rest, of forced] obtain R where
      R: "forced_loop items forced remaining =
            Inr (forced @ map (\<lambda>p. replicate 3 (fst p)) (filter forced_class items), R)"
         "length R + 3 * length (filter forced_class items) = length remaining"
         "\<forall>x. count_list R x =
                 (if \<exists>p \<in> set items. fst p = x \<and> forced_class p
                  then count_list remaining x - 3 else count_list remaining x)"
      by blast
    show ?thesis
    proof (intro exI [of _ R] conjI allI)
      show "forced_loop (p # items) forced remaining =
              Inr (forced @ map (\<lambda>p. replicate 3 (fst p)) (filter forced_class (p # items)), R)"
        using False n R(1) by (simp add: p)
      show "length R + 3 * length (filter forced_class (p # items)) = length remaining"
        using False R(2) by simp
      fix x
      show "count_list R x =
              (if \<exists>q \<in> set (p # items). fst q = x \<and> forced_class q
               then count_list remaining x - 3 else count_list remaining x)"
        using False R(3) by simp
    qed
  next
    case True
    then have n: "n = 3 \<or> n = 4" by (simp add: forced_class_def p)
    then have "3 \<le> count_list remaining c" using cnt by auto
    from remove_times_ok [OF this] obtain R0 where
      R0: "remove_times 3 c remaining = Inr R0" "length R0 + 3 = length remaining"
          "\<forall>x. count_list R0 x =
             (if x = c then count_list remaining c - 3 else count_list remaining x)"
      by blast
    have rest0: "\<forall>q \<in> set items. count_list R0 (fst q) = snd q"
      using rest R0(3) notin by auto
    let ?forced0 = "forced @ [replicate 3 c]"
    from Cons.IH [OF dist rest0, of ?forced0] obtain R where
      R: "forced_loop items ?forced0 R0 =
            Inr (?forced0 @ map (\<lambda>p. replicate 3 (fst p)) (filter forced_class items), R)"
         "length R + 3 * length (filter forced_class items) = length R0"
         "\<forall>x. count_list R x =
                 (if \<exists>p \<in> set items. fst p = x \<and> forced_class p
                  then count_list R0 x - 3 else count_list R0 x)"
      by blast
    have step: "forced_loop (p # items) forced remaining = forced_loop items ?forced0 R0"
    proof (cases "n = 4")
      case True
      then show ?thesis
        using R0(1) cnt by (simp add: p filter_eq_replicate)
    next
      case False
      with n have "n = 3" by simp
      then show ?thesis
        using R0(1) cnt by (simp add: p filter_eq_replicate remove_listed_replicate)
    qed
    show ?thesis
    proof (intro exI [of _ R] conjI allI)
      show "forced_loop (p # items) forced remaining =
              Inr (forced @ map (\<lambda>p. replicate 3 (fst p)) (filter forced_class (p # items)), R)"
        using True R(1) step by (simp add: p)
      show "length R + 3 * length (filter forced_class (p # items)) = length remaining"
        using True R(2) R0(2) by simp
      fix x
      show "count_list R x =
              (if \<exists>q \<in> set (p # items). fst q = x \<and> forced_class q
               then count_list remaining x - 3 else count_list remaining x)"
      proof (cases "x = c")
        case True
        then have no: "\<not> (\<exists>q \<in> set items. fst q = x \<and> forced_class q)"
          using notin by auto
        have "count_list R x = count_list R0 x" using R(3) no by auto
        also have "\<dots> = count_list remaining x - 3" using R0(3) True by simp
        finally show ?thesis using True \<open>forced_class p\<close> by (simp add: p)
      next
        case False
        have "count_list R0 x = count_list remaining x" using R0(3) False by simp
        moreover have "count_list R x =
            (if \<exists>q \<in> set items. fst q = x \<and> forced_class q
             then count_list R0 x - 3 else count_list R0 x)"
          using R(3) by blast
        ultimately show ?thesis using False by (auto simp: p)
      qed
    qed
  qed
qed


lemma forced_groups_char:
  "\<exists>R. forced_groups cs =
          Inr (map (\<lambda>p. replicate 3 (fst p)) (filter forced_class (Counter cs)), R)
       \<and> length R + 3 * length (filter forced_class (Counter cs)) = length cs
       \<and> (\<forall>x. count_list R x =
             (if count_list cs x = 3 \<or> count_list cs x = 4
              then count_list cs x - 3 else count_list cs x))"
proof -
  have d: "distinct (map fst (Counter cs))" using Counter_keys [of cs] by simp
  have c: "\<forall>p \<in> set (Counter cs). count_list cs (fst p) = snd p"
    using Counter_mem [of _ _ cs] by (metis prod.collapse)
  have e: "(\<exists>p \<in> set (Counter cs). fst p = x \<and> forced_class p)
             \<longleftrightarrow> (count_list cs x = 3 \<or> count_list cs x = 4)" for x
  proof
    assume "\<exists>p \<in> set (Counter cs). fst p = x \<and> forced_class p"
    then obtain n where "(x, n) \<in> set (Counter cs)" "n = 3 \<or> n = 4"
      by (auto simp: forced_class_def)
    then show "count_list cs x = 3 \<or> count_list cs x = 4"
      using Counter_mem [of x n cs] by simp
  next
    assume a: "count_list cs x = 3 \<or> count_list cs x = 4"
    then have "x \<in> set cs" by (metis count_list_0_iff zero_neq_numeral)
    then have "(x, count_list cs x) \<in> set (Counter cs)" by (simp add: Counter_mem)
    with a show "\<exists>p \<in> set (Counter cs). fst p = x \<and> forced_class p"
      by (force simp: forced_class_def)
  qed
  from forced_loop_char [OF d c, of "[]"] show ?thesis
    unfolding forced_groups_def e by simp
qed

lemma find_win_combination_None: "find_win_combination cs = Inr None"
proof (cases "length cs = 21")
  case False
  then show ?thesis by (simp add: find_win_combination_def)
next
  case True
  from forced_groups_char [of cs] obtain F R where
    fg: "forced_groups cs = Inr (F, R)" and len: "length R + 3 * length F = length cs"
    by auto
  from len True have "length R mod 3 = 0" by presburger
  then show ?thesis using True fg by (simp add: find_win_combination_def)
qed

lemma distinct_count_list_1: "distinct xs \<Longrightarrow> x \<in> set xs \<Longrightarrow> count_list xs x = 1"
  by (induction xs) (auto simp: count_list_0_iff)

lemma forced_triplets_distinct:
  "distinct (map (\<lambda>p. replicate 3 (fst p)) (filter forced_class (Counter cs)))"
proof -
  have "distinct (map fst (filter forced_class (Counter cs)))"
    using Counter_keys [of cs] by (simp add: distinct_map_filter)
  moreover have "inj (\<lambda>c::Card. replicate 3 c)"
    by (rule injI) (simp add: numeral_3_eq_3)
  ultimately have "distinct (map (\<lambda>c. replicate 3 c) (map fst (filter forced_class (Counter cs))))"
    by (simp only: distinct_map) (auto intro: inj_on_subset)
  then show ?thesis by (simp add: comp_def)
qed

lemma ti_hand_decomposition:
  "try_find_sequences_and_pair (all_cards_of ti_hand) =
     Some ([[minor 1, minor 2, minor 3], [minor 4, minor 5, minor 6],
            [minor 7, minor 8, minor 9], [major 1, major 2, major 3],
            [major 4, major 5, major 6]], [major 8, major 8])
   \<and> calculate_win_huxi (all_cards_of ti_hand) (exposed_groups ti_hand)
         \<lparr>triplets = [],
          sequences = [[minor 1, minor 2, minor 3], [minor 4, minor 5, minor 6],
                       [minor 7, minor 8, minor 9], [major 1, major 2, major 3],
                       [major 4, major 5, major 6]],
          pair = [major 8, major 8]\<rparr> = Inr 21"
  by code_simp

subsection \<open>Committed groups and their huxi\<close>

lemma wei_group_idx_Some:
  assumes "wei_group_idx d gs = Some i"
  shows "i < length gs \<and> is_wei_of d (gs ! i) \<and> (\<forall>j < i. \<not> is_wei_of d (gs ! j))"
  using assms
proof (induction gs arbitrary: i)
  case Nil
  then show ?case by simp
next
  case (Cons g gs)
  show ?case
  proof (cases "is_wei_of d g")
    case True
    with Cons.prems show ?thesis by simp
  next
    case False
    with Cons.prems obtain k where k: "wei_group_idx d gs = Some k" "i = k + 1"
      by (auto split: option.splits)
    from Cons.IH [OF k(1)] False k(2) show ?thesis
      by (auto simp: nth_Cons split: nat.splits)
  qed
qed

lemma add_huxi_eq:
  "add_huxi f xs t =
     (if list_all (\<lambda>y. \<not> isl (f y)) xs then Inr (t + sum_list (map (\<lambda>y. projr (f y)) xs))
      else Inl ValueError)"
proof (induction xs arbitrary: t)
  case Nil
  then show ?case by simp
next
  case (Cons x xs)
  show ?case
  proof (cases "f x")
    case (Inl e)
    then show ?thesis by (cases e) simp
  next
    case (Inr n)
    then show ?thesis by (simp add: Cons.IH algebra_simps)
  qed
qed

lemma calculate_win_huxi_eq:
  "calculate_win_huxi ac gs comb =
     (if list_all (\<lambda>g. \<not> isl (group_huxi g)) gs
         \<and> list_all (\<lambda>t. \<not> isl (calculate_triplet_huxi t False)) (triplets comb)
      then Inr (sum_list (map (\<lambda>g. projr (group_huxi g)) gs)
                + sum_list (map (\<lambda>t. projr (calculate_triplet_huxi t False)) (triplets comb))
                + sum_list (map calculate_sequence_huxi (sequences comb)))
      else Inl ValueError)"
  by (simp add: calculate_win_huxi_def add_huxi_eq list_all_iff)


lemma upgraded_groups_huxi:
  assumes i: "i < length gs" and wei: "g_type (gs ! i) = ''wei''" and ws: "g_cards (gs ! i) = [d, d, d]"
    and tg: "tg = \<lparr>g_type = ''ti'', g_cards = [d, d, d, d], g_is_concealed = False\<rparr>"
  shows "list_all (\<lambda>g. \<not> isl (group_huxi g)) (pop_at i gs @ [tg])
           = list_all (\<lambda>g. \<not> isl (group_huxi g)) gs"
    and "sum_list (map (\<lambda>g. projr (group_huxi g)) (pop_at i gs @ [tg]))
           = sum_list (map (\<lambda>g. projr (group_huxi g)) gs)
             - (if is_uppercase d then 6 else 3) + (if is_uppercase d then 12 else 9)"
proof -
  have split: "gs = take i gs @ gs ! i # drop (Suc i) gs"
    using i by (rule id_take_nth_drop)
  have hw: "group_huxi (gs ! i) = Inr (if is_uppercase d then 6 else 3)"
    using wei ws by (simp add: group_huxi_def calculate_triplet_huxi_def)
  have ht: "group_huxi tg = Inr (if is_uppercase d then 12 else 9)"
    by (simp add: tg group_huxi_def calculate_quadruplet_huxi_def)
  have "list_all (\<lambda>g. \<not> isl (group_huxi g)) gs
          = list_all (\<lambda>g. \<not> isl (group_huxi g)) (take i gs @ gs ! i # drop (Suc i) gs)"
    using split by simp
  then show "list_all (\<lambda>g. \<not> isl (group_huxi g)) (pop_at i gs @ [tg])
           = list_all (\<lambda>g. \<not> isl (group_huxi g)) gs"
    using hw ht by (auto simp: pop_at_def)
  have "sum_list (map (\<lambda>g. projr (group_huxi g)) gs)
          = sum_list (map (\<lambda>g. projr (group_huxi g)) (take i gs @ gs ! i # drop (Suc i) gs))"
    using split by simp
  then show "sum_list (map (\<lambda>g. projr (group_huxi g)) (pop_at i gs @ [tg]))
           = sum_list (map (\<lambda>g. projr (group_huxi g)) gs)
             - (if is_uppercase d then 6 else 3) + (if is_uppercase d then 12 else 9)"
    using hw ht by (simp add: pop_at_def)
qed

subsection \<open>Sequences and the positions of a hand\<close>

lemma three_values:
  fixes vs :: "int list"
  assumes "length vs = 3" and "\<forall>v \<in> set vs. 1 \<le> v \<and> v \<le> 10"
  shows "(vs \<in> set SPECIAL_SEQUENCES \<or> (vs ! 1 = vs ! 0 + 1 \<and> vs ! 2 = vs ! 1 + 1))
     \<longleftrightarrow> (vs = [1, 2, 3] \<or> vs = [2, 7, 10] \<or> list_ex (\<lambda>k. vs = [k, k + 1, k + 2]) [1..8])"
proof -
  from assms(1) obtain p q r where vs: "vs = [p, q, r]"
    by (metis (no_types, opaque_lifting) length_0_conv length_Suc_conv numeral_3_eq_3)
  from assms(2) have b: "1 \<le> p" "r \<le> 10" by (simp_all add: vs)
  show ?thesis
    using b by (auto simp: vs SPECIAL_SEQUENCES_def list_ex_iff)
qed

lemma is_valid_sequence_iff:
  assumes "valid_card a" "valid_card b" "valid_card c"
  shows "is_valid_sequence [a, b, c] \<longleftrightarrow> sequence_as_specified a b c"
proof -
  let ?vs = "sort [val a, val b, val c]"
  have l: "length ?vs = 3" by (simp only: length_sort) simp
  have "set ?vs = {val a, val b, val c}" by (simp only: set_sort) auto
  then have r: "\<forall>v \<in> set ?vs. 1 \<le> v \<and> v \<le> 10"
    using assms by (auto simp: valid_card_def)
  have "is_valid_sequence [a, b, c] \<longleftrightarrow>
          (is_uppercase a = is_uppercase b \<and> is_uppercase b = is_uppercase c)
          \<and> (?vs \<in> set SPECIAL_SEQUENCES \<or> (?vs ! 1 = ?vs ! 0 + 1 \<and> ?vs ! 2 = ?vs ! 1 + 1))"
    unfolding is_valid_sequence_def Let_def by (auto simp del: sort_key_simps)
  also have "\<dots> \<longleftrightarrow> sequence_as_specified a b c"
    unfolding sequence_as_specified_def Let_def three_values [OF l r] by auto
  finally show ?thesis .
qed


lemma concat_map_if:
  "concat (map (\<lambda>j. if Q j then [g j] else []) js) = map g (filter Q js)"
  by (induction js) auto

lemma index_pairs_set: "set (index_pairs n) = {(i, j). i < j \<and> j < n}"
  by (force simp: index_pairs_def)

lemma distinct_concat_map:
  assumes "distinct xs" and "\<And>x. distinct (f x)"
    and "\<And>x y. x \<noteq> y \<Longrightarrow> set (f x) \<inter> set (f y) = {}"
  shows "distinct (concat (map f xs))"
  using assms(1)
proof (induction xs)
  case Nil
  then show ?case by simp
next
  case (Cons x xs)
  have "set (f x) \<inter> set (f y) = {}" if "y \<in> set xs" for y
    using that Cons.prems assms(3) [of x y] by auto
  then have "set (f x) \<inter> \<Union> (set ` f ` set xs) = {}" by blast
  with Cons assms(2) show ?case by simp
qed

lemma index_pairs_distinct: "distinct (index_pairs n)"
  unfolding index_pairs_def
  by (rule distinct_concat_map) (auto simp: distinct_map inj_on_def)

lemma can_chi_eq:
  "can_chi h d =
     map (\<lambda>(i, j). [cards h ! i, cards h ! j])
       (filter (\<lambda>(i, j). is_valid_sequence [d, cards h ! i, cards h ! j])
          (index_pairs (length (cards h))))"
proof -
  let ?n = "length (cards h)"
  let ?g = "\<lambda>(i, j). [cards h ! i, cards h ! j]"
  let ?Q = "\<lambda>(i, j). is_valid_sequence [d, cards h ! i, cards h ! j]"
  have inner: "concat (map (\<lambda>j. (let card1 = cards h ! i; card2 = cards h ! j in
                  if is_valid_sequence [d, card1, card2] then [[card1, card2]] else []))
                [i + 1..<?n])
          = map ?g (filter ?Q (map (\<lambda>j. (i, j)) [i + 1..<?n]))" for i
    by (simp add: Let_def concat_map_if filter_map comp_def)
  have "can_chi h d = concat (map (\<lambda>i. map ?g (filter ?Q (map (\<lambda>j. (i, j)) [i + 1..<?n]))) [0..<?n])"
    unfolding can_chi_def inner ..
  also have "\<dots> = map ?g (filter ?Q (index_pairs ?n))"
    unfolding index_pairs_def by (simp add: map_concat filter_concat comp_def)
  finally show ?thesis .
qed

subsection \<open>Grouping by key\<close>

lemma dict_append_keys:
  "map fst (dict_append k x d) = (if k \<in> set (map fst d) then map fst d else map fst d @ [k])"
  by (induction d) (force+)

lemma dict_append_mem:
  assumes "distinct (map fst d)"
  shows "(k', l) \<in> set (dict_append k x d) \<longleftrightarrow>
           (if k' = k
            then (if k \<in> set (map fst d) then \<exists>l0. (k, l0) \<in> set d \<and> l = l0 @ [x] else l = [x])
            else (k', l) \<in> set d)"
  using assms
proof (induction d)
  case Nil
  then show ?case by auto
next
  case (Cons p d)
  obtain y m where p: "p = (y, m)" by (cases p)
  from Cons.prems have dist: "distinct (map fst d)" and notin: "y \<notin> set (map fst d)"
    by (simp_all add: p)
  show ?case
  proof (cases "k = y")
    case True
    with notin show ?thesis by (auto simp: p rev_image_eqI)
  next
    case False
    with Cons.IH [OF dist] notin show ?thesis by (auto simp: p rev_image_eqI)
  qed
qed

lemma group_by_snoc: "group_by key (xs @ [x]) = dict_append (key x) x (group_by key xs)"
  by (simp add: group_by_def)

lemma group_by_keys:
  "distinct (map fst (group_by key xs)) \<and> set (map fst (group_by key xs)) = key ` set xs"
proof (induction xs rule: rev_induct)
  case Nil
  then show ?case by (simp add: group_by_def)
next
  case (snoc x xs)
  then show ?case by (auto simp: group_by_snoc dict_append_keys)
qed

lemma group_by_mem:
  "(k, l) \<in> set (group_by key xs) \<longleftrightarrow> k \<in> key ` set xs \<and> l = filter (\<lambda>x. key x = k) xs"
proof (induction xs arbitrary: k l rule: rev_induct)
  case Nil
  then show ?case by (simp add: group_by_def)
next
  case (snoc x xs)
  have d: "distinct (map fst (group_by key xs))"
    and s: "set (map fst (group_by key xs)) = key ` set xs"
    using group_by_keys [of key xs] by simp_all
  show ?case
    unfolding group_by_snoc dict_append_mem [OF d] s
    using snoc.IH by (auto simp: filter_empty_conv) (metis imageI)+
qed


lemma card_key_eq: "card_key a = card_key b \<longleftrightarrow> a = b"
  by (auto simp: card_key_def)

lemma group_by_card_key_mem:
  "(k, l) \<in> set (group_by card_key cs) \<longleftrightarrow>
     (\<exists>c \<in> set cs. k = card_key c \<and> l = replicate (count_list cs c) c)"
proof -
  have "filter (\<lambda>x. card_key x = card_key c) cs = replicate (count_list cs c) c" for c
    by (simp only: card_key_eq filter_eq_replicate)
  then show ?thesis unfolding group_by_mem by auto
qed



lemma take_3_replicate: "3 \<le> n \<Longrightarrow> take 3 (replicate n c) = [c, c, c]"
proof -
  assume "3 \<le> n"
  then have "take 3 (replicate n c) = replicate 3 c" by (simp add: min_def)
  then show ?thesis by (simp add: numeral_3_eq_3)
qed

lemma find_triplets_mem:
  "g \<in> set (find_triplets cs) \<longleftrightarrow> (\<exists>c. 3 \<le> count_list cs c \<and> g = [c, c, c])"
proof
  assume "g \<in> set (find_triplets cs)"
  then obtain k l where kl: "(k, l) \<in> set (group_by card_key cs)" "3 \<le> length l" "g = take 3 l"
    by (auto simp: find_triplets_def)
  then obtain c where c: "l = replicate (count_list cs c) c"
    unfolding group_by_card_key_mem by blast
  with kl have n: "3 \<le> count_list cs c" by simp
  then have "g = [c, c, c]"
    unfolding kl(3) c by (rule take_3_replicate)
  with n show "\<exists>c. 3 \<le> count_list cs c \<and> g = [c, c, c]" by blast
next
  assume "\<exists>c. 3 \<le> count_list cs c \<and> g = [c, c, c]"
  then obtain c where c: "3 \<le> count_list cs c" "g = [c, c, c]" by blast
  then have "count_list cs c \<noteq> 0" by simp
  then have "c \<in> set cs" by (simp add: count_list_0_iff)
  then have m: "(card_key c, replicate (count_list cs c) c) \<in> set (group_by card_key cs)"
    unfolding group_by_card_key_mem by blast
  have t: "take 3 (replicate (count_list cs c) c) = g"
    unfolding c(2) using c(1) by (rule take_3_replicate)
  let ?p = "(card_key c, replicate (count_list cs c) c)"
  have "?p \<in> set (filter (\<lambda>(key, card_list). length card_list \<ge> 3) (group_by card_key cs))"
    using m c(1) by simp
  then have "(\<lambda>(key, card_list). take 3 card_list) ?p \<in> set (find_triplets cs)"
    unfolding find_triplets_def set_map by (rule imageI)
  then show "g \<in> set (find_triplets cs)" using t by simp
qed


lemma find_triplets_distinct: "distinct (find_triplets cs)"
proof -
  let ?ys = "filter (\<lambda>(key, card_list). length card_list \<ge> 3) (group_by card_key cs)"
  have "distinct (map fst (group_by card_key cs))"
    using group_by_keys [of card_key cs] by simp
  then have "distinct (group_by card_key cs)" by (simp only: distinct_map)
  then have d: "distinct ?ys" by (rule distinct_filter)
  have "inj_on (\<lambda>(key, card_list). take 3 card_list) (set ?ys)"
  proof (rule inj_onI)
    fix p q assume p: "p \<in> set ?ys" and q: "q \<in> set ?ys"
      and e: "(case p of (key, card_list) \<Rightarrow> take 3 card_list)
            = (case q of (key, card_list) \<Rightarrow> take 3 card_list)"
    obtain k l where pk: "p = (k, l)" by (cases p)
    obtain k' l' where qk: "q = (k', l')" by (cases q)
    from p pk have "(k, l) \<in> set (group_by card_key cs)" and l3: "3 \<le> length l" by simp_all
    then obtain c where c: "k = card_key c" "l = replicate (count_list cs c) c"
      unfolding group_by_card_key_mem by blast
    from q qk have "(k', l') \<in> set (group_by card_key cs)" and l3': "3 \<le> length l'"
      by simp_all
    then obtain c' where c': "k' = card_key c'" "l' = replicate (count_list cs c') c'"
      unfolding group_by_card_key_mem by blast
    have "take 3 l = [c, c, c]" using l3 unfolding c(2) by (simp only: length_replicate take_3_replicate)
    moreover have "take 3 l' = [c', c', c']"
      using l3' unfolding c'(2) by (simp only: length_replicate take_3_replicate)
    moreover from e have "take 3 l = take 3 l'" by (simp only: pk qk prod.case)
    ultimately have "c = c'" by simp
    with c c' show "p = q" by (simp only: pk qk)
  qed
  with d have "distinct (map (\<lambda>(key, card_list). take 3 card_list) ?ys)"
    by (simp only: distinct_map simp_thms)
  then show ?thesis by (simp only: find_triplets_def)
qed

lemma forced_groups_classes:
  "\<exists>forced remaining. forced_groups cs = Inr (forced, remaining)
     \<and> (\<forall>g \<in> set forced. \<exists>x. g = [x, x, x] \<and> (count_list cs x = 3 \<or> count_list cs x = 4))
     \<and> (count_list cs c = 4 \<longrightarrow>
           count_list forced [c, c, c] = 1 \<and> count_list remaining c = 1)
     \<and> (count_list cs c = 3 \<longrightarrow>
           count_list forced [c, c, c] = 1 \<and> count_list remaining c = 0)"
proof -
  let ?F = "map (\<lambda>p. replicate 3 (fst p)) (filter forced_class (Counter cs))"
  from forced_groups_char [of cs] obtain R where
    fg: "forced_groups cs = Inr (?F, R)"
    and cnt: "\<forall>x. count_list R x =
             (if count_list cs x = 3 \<or> count_list cs x = 4
              then count_list cs x - 3 else count_list cs x)"
    by blast
  have groups: "\<forall>g \<in> set ?F. \<exists>x. g = [x, x, x] \<and> (count_list cs x = 3 \<or> count_list cs x = 4)"
  proof
    fix g assume "g \<in> set ?F"
    then obtain x n where "(x, n) \<in> set (Counter cs)" "n = 3 \<or> n = 4" "g = replicate 3 x"
      by (auto simp: forced_class_def)
    then show "\<exists>x. g = [x, x, x] \<and> (count_list cs x = 3 \<or> count_list cs x = 4)"
      using Counter_mem [of x n cs] by (auto simp: numeral_3_eq_3)
  qed
  have one: "count_list ?F [c, c, c] = 1" if a: "count_list cs c = 3 \<or> count_list cs c = 4"
  proof -
    from a have "c \<in> set cs" by (metis count_list_0_iff zero_neq_numeral)
    then have "(c, count_list cs c) \<in> set (Counter cs)" by (simp add: Counter_mem)
    with a have "(c, count_list cs c) \<in> set (filter forced_class (Counter cs))"
      by (simp add: forced_class_def)
    then have "replicate 3 c \<in> set ?F" by force
    then have "[c, c, c] \<in> set ?F" by (simp add: numeral_3_eq_3)
    then show ?thesis using forced_triplets_distinct [of cs] by (rule distinct_count_list_1 [rotated])
  qed
  show ?thesis
  proof (intro exI [of _ ?F] exI [of _ R] conjI impI)
    show "forced_groups cs = Inr (?F, R)" by (rule fg)
    show "\<forall>g \<in> set ?F. \<exists>x. g = [x, x, x] \<and> (count_list cs x = 3 \<or> count_list cs x = 4)"
      by (rule groups)
  next
    assume "count_list cs c = 4"
    then show "count_list ?F [c, c, c] = 1" using one by simp
  next
    assume "count_list cs c = 4"
    then show "count_list R c = 1" using cnt by simp
  next
    assume "count_list cs c = 3"
    then show "count_list ?F [c, c, c] = 1" using one by simp
  next
    assume "count_list cs c = 3"
    then show "count_list R c = 0" using cnt by simp
  qed
qed

subsection \<open>Removing a list of tiles\<close>

text \<open>
  \<^verbatim>\<open>Hand.remove_cards\<close> does what its docstring says on two kinds of request: one
  that names a tile the hand does not hold at all, and one that names no tile more
  often than the hand holds it.
\<close>

lemma remove_each_available:
  assumes "mset req \<subseteq># mset cs"
  shows "\<exists>cs'. remove_each req cs = (Inr (), cs') \<and> mset cs' = mset cs - mset req"
  using assms
proof (induction req arbitrary: cs)
  case Nil
  then show ?case by simp
next
  case (Cons c req)
  from Cons.prems have mem: "c \<in> set cs"
    by (metis insert_subset_eq_iff mset.simps(2) set_mset_mset)
  from Cons.prems have "mset req \<subseteq># mset (remove1 c cs)"
    by (simp add: insert_subset_eq_iff)
  from Cons.IH [OF this] obtain cs' where
    "remove_each req (remove1 c cs) = (Inr (), cs')" "mset cs' = mset (remove1 c cs) - mset req"
    by blast
  moreover have "mset cs - {#c#} - mset req = mset cs - mset (c # req)"
    by (simp add: diff_union_swap2 [symmetric] del: diff_diff_add_mset) (simp add: add_mset_commute)
  ultimately show ?case using mem by simp
qed

lemma remove_cards_within_holdings:
  "list_ex (\<lambda>c. c \<notin> set (cards h)) req \<Longrightarrow> remove_cards req h = (Inr False, h)"
  "mset req \<subseteq># mset (cards h) \<Longrightarrow>
     \<exists>cs'. remove_cards req h = (Inr True, h\<lparr>cards := cs'\<rparr>)
           \<and> mset cs' = mset (cards h) - mset req"
proof -
  show "list_ex (\<lambda>c. c \<notin> set (cards h)) req \<Longrightarrow> remove_cards req h = (Inr False, h)"
    by (simp add: remove_cards_def)
next
  assume a: "mset req \<subseteq># mset (cards h)"
  then have "\<not> list_ex (\<lambda>c. c \<notin> set (cards h)) req"
    by (auto simp: list_ex_iff dest: mset_subset_eqD)
  moreover from remove_each_available [OF a] obtain cs' where
    "remove_each req (cards h) = (Inr (), cs')" "mset cs' = mset (cards h) - mset req"
    by blast
  ultimately have "remove_cards req h = (Inr True, h\<lparr>cards := cs'\<rparr>)
           \<and> mset cs' = mset (cards h) - mset req"
    by (simp add: remove_cards_def)
  then show "\<exists>cs'. remove_cards req h = (Inr True, h\<lparr>cards := cs'\<rparr>)
           \<and> mset cs' = mset (cards h) - mset req"
    by (rule exI)
qed

text \<open>
  The read \<^verbatim>\<open>value_cards[v][0]\<close> of \<^verbatim>\<open>find_sequences\<close> is defined for every key of the
  dictionary, and gives a tile of the list with the value \<open>v\<close>.
\<close>

lemma group_by_lookup:
  assumes "k \<in> set (map fst (group_by key xs))"
  shows "\<exists>x l. map_of (group_by key xs) k = Some (x # l) \<and> key x = k \<and> x \<in> set xs"
proof -
  let ?l = "filter (\<lambda>x. key x = k) xs"
  from assms have k: "k \<in> key ` set xs" using group_by_keys [of key xs] by simp
  then have "(k, ?l) \<in> set (group_by key xs)" by (simp add: group_by_mem)
  moreover have "distinct (map fst (group_by key xs))" using group_by_keys [of key xs] by simp
  ultimately have m: "map_of (group_by key xs) k = Some ?l" by simp
  from k have "?l \<noteq> []" by (auto simp: filter_empty_conv)
  then obtain x l where xl: "?l = x # l" by (cases ?l) auto
  then have "x \<in> set ?l" by simp
  then have "key x = k" "x \<in> set xs" by simp_all
  with m xl show ?thesis by simp
qed

lemma first_of_defined:
  assumes "v \<in> set (map fst (group_by val cs))"
  shows "first_of (group_by val cs) v \<in> set cs \<and> val (first_of (group_by val cs) v) = v"
  using group_by_lookup [OF assms] by (auto simp: first_of_def)

subsection \<open>Copies of a tile\<close>

lemma count_exact_card_concealed: "count_exact_card h d False = count_list (cards h) d"
  by (simp add: count_exact_card_def filter_eq_replicate)

lemma wei_group_copies:
  assumes "g \<in> set gs" and "g_cards g = [d, d, d]"
  shows "3 \<le> sum_list (map (\<lambda>g. count_list (g_cards g) d) gs)"
proof -
  have "count_list (g_cards g) d \<in> set (map (\<lambda>g. count_list (g_cards g) d) gs)"
    using assms(1) by simp
  then have "count_list (g_cards g) d \<le> sum_list (map (\<lambda>g. count_list (g_cards g) d) gs)"
    by (simp add: member_le_sum_list)
  then show ?thesis using assms(2) by simp
qed

subsection \<open>Runs on the heap\<close>

lemma framesI:
  assumes "\<And>h res h'. n \<le> length h \<Longrightarrow> m h = (res, h') \<Longrightarrow>
     length h \<le> length h' \<and> (\<forall>a < n. h' ! a = h ! a) \<and> (\<forall>v. res = Inr v \<longrightarrow> Q v)"
  shows "frames n m Q"
  unfolding frames_def
proof (intro allI impI)
  fix h :: heap assume n: "n \<le> length h"
  obtain res h' where r: "m h = (res, h')" by (cases "m h")
  from assms [OF n r] show "case m h of (res, h') \<Rightarrow>
           length h \<le> length h' \<and> (\<forall>a < n. h' ! a = h ! a)
           \<and> (case res of Inl e \<Rightarrow> True | Inr v \<Rightarrow> Q v)"
    unfolding r by (cases res) auto
qed

lemma framesD:
  assumes "frames n m Q" and "n \<le> length h" and "m h = (res, h')"
  shows "length h \<le> length h'" and "\<forall>a < n. h' ! a = h ! a" and "\<And>v. res = Inr v \<Longrightarrow> Q v"
  using assms unfolding frames_def by (auto split: prod.splits sum.splits)

lemma frames_ret: "Q v \<Longrightarrow> frames n (ret v) Q"
  by (rule framesI) (auto simp: ret_def)

lemma frames_fail: "frames n (fail e) Q"
  by (rule framesI) (auto simp: fail_def)

lemma frames_weaken:
  assumes "frames n m P" and "\<And>v. P v \<Longrightarrow> Q v"
  shows "frames n m Q"
proof (rule framesI)
  fix h res h' assume a: "n \<le> length h" "m h = (res, h')"
  from framesD [OF assms(1) a] assms(2)
  show "length h \<le> length h' \<and> (\<forall>a < n. h' ! a = h ! a) \<and> (\<forall>v. res = Inr v \<longrightarrow> Q v)"
    by blast
qed

lemma frames_bnd:
  assumes m: "frames n m P" and k: "\<And>v. P v \<Longrightarrow> frames n (k v) Q"
  shows "frames n (bnd m k) Q"
proof (rule framesI)
  fix h res h' assume n: "n \<le> length h" and r: "bnd m k h = (res, h')"
  obtain r1 h1 where m1: "m h = (r1, h1)" by (cases "m h")
  note f1 = framesD [OF m n m1]
  show "length h \<le> length h' \<and> (\<forall>a < n. h' ! a = h ! a) \<and> (\<forall>v. res = Inr v \<longrightarrow> Q v)"
  proof (cases r1)
    case (Inl e)
    with r m1 have "res = Inl e" "h' = h1" by (simp_all add: bnd_def)
    with f1 show ?thesis by simp
  next
    case (Inr v)
    with r m1 have k1: "k v h1 = (res, h')" by (simp add: bnd_def)
    from f1(3) [OF Inr] have "P v" .
    from k [OF this] have fk: "frames n (k v) Q" .
    from n f1(1) have n1: "n \<le> length h1" by simp
    note f2 = framesD [OF fk n1 k1]
    from f1 f2 show ?thesis by auto
  qed
qed

lemma frames_new_cards: "frames n (new_cards cs) (\<lambda>r. n \<le> r)"
  by (rule framesI) (auto simp: new_cards_def nth_append)

lemma frames_get_cards: "frames n (get_cards r) (\<lambda>cs. True)"
  by (rule framesI) (auto simp: get_cards_def split: if_splits obj.splits)

lemma frames_get_groups: "frames n (get_groups r) (\<lambda>cs. True)"
  by (rule framesI) (auto simp: get_groups_def split: if_splits obj.splits)

lemma frames_get_group: "frames n (get_group r) (\<lambda>cs. True)"
  by (rule framesI) (auto simp: get_group_def split: if_splits obj.splits)

lemma frames_get_hand: "frames n (get_hand r) (\<lambda>cs. True)"
  by (rule framesI) (auto simp: get_hand_def split: if_splits obj.splits)

lemma frames_put_cards: "n \<le> r \<Longrightarrow> frames n (put_cards r cs) (\<lambda>u. True)"
  by (rule framesI) (auto simp: put_cards_def split: if_splits obj.splits)

lemma frames_list_copy: "frames n (list_copy r) (\<lambda>r'. n \<le> r')"
  unfolding list_copy_def by (rule frames_bnd [OF frames_get_cards frames_new_cards])

lemma frames_list_append: "n \<le> r \<Longrightarrow> frames n (list_append r c) (\<lambda>u. True)"
  unfolding list_append_def by (rule frames_bnd [OF frames_get_cards frames_put_cards])

lemma frames_list_remove: "n \<le> r \<Longrightarrow> frames n (list_remove r c) (\<lambda>u. True)"
  unfolding list_remove_def
  by (rule frames_bnd [OF frames_get_cards]) (simp add: frames_put_cards frames_fail)

lemma frames_fold_prog:
  assumes "\<And>x s. I s \<Longrightarrow> frames n (f x s) I" and "I s"
  shows "frames n (fold_prog f xs s) I"
  using assms(2)
proof (induction xs arbitrary: s)
  case Nil
  then show ?case by (simp add: frames_ret)
next
  case (Cons x xs)
  show ?case
    unfolding fold_prog.simps
    by (rule frames_bnd [OF assms(1) [OF Cons.prems]]) (rule Cons.IH)
qed

lemma frames_first_result:
  assumes "\<And>x. frames n (f x) Q'" and "\<And>v. Q' (Some v) \<Longrightarrow> Q (Some v)" and "Q None"
  shows "frames n (first_result f xs) Q"
proof (induction xs)
  case Nil
  then show ?case by (simp add: frames_ret assms(3))
next
  case (Cons x xs)
  show ?case
    unfolding first_result.simps
  proof (rule frames_bnd [OF assms(1)])
    fix r assume "Q' r"
    then show "frames n (case r of Some v \<Rightarrow> ret (Some v) | None \<Rightarrow> first_result f xs) Q"
      using Cons.IH assms(2) by (cases r) (simp_all add: frames_ret)
  qed
qed

lemma frames_first_true:
  assumes "\<And>x. frames n (f x) (\<lambda>b. True)"
  shows "frames n (first_true f xs) (\<lambda>b. True)"
proof (induction xs)
  case Nil
  then show ?case by (simp add: frames_ret)
next
  case (Cons x xs)
  show ?case
    unfolding first_true.simps
    by (rule frames_bnd [OF assms]) (simp add: frames_ret Cons.IH)
qed

lemma frames_map_prog:
  assumes "\<And>x. frames n (f x) Q"
  shows "frames n (map_prog f xs) (list_all Q)"
proof (induction xs)
  case Nil
  then show ?case by (simp add: frames_ret)
next
  case (Cons x xs)
  show ?case
    unfolding map_prog.simps
    by (rule frames_bnd [OF assms] frames_bnd [OF Cons.IH] frames_ret | simp)+
qed


lemma frames_if:
  "(b \<Longrightarrow> frames n x Q) \<Longrightarrow> (\<not> b \<Longrightarrow> frames n y Q) \<Longrightarrow> frames n (if b then x else y) Q"
  by simp

lemma frames_case_option:
  "frames n a Q \<Longrightarrow> (\<And>v. frames n (f v) Q)
     \<Longrightarrow> frames n (case x of None \<Rightarrow> a | Some v \<Rightarrow> f v) Q"
  by (cases x) simp_all

lemma frames_case_prod:
  "(\<And>a b. frames n (f a b) Q) \<Longrightarrow> frames n (case p of (a, b) \<Rightarrow> f a b) Q"
  by (cases p) simp

lemma frames_lift_error: "frames n (lift_error r) (\<lambda>v. True)"
  by (cases r) (simp_all add: lift_error_def frames_fail frames_ret)

lemma frames_remove_cards_from_list_heap:
  "frames n (remove_cards_from_list_heap cards_r to_remove) (\<lambda>r. n \<le> r)"
  unfolding remove_cards_from_list_heap_def
proof (rule frames_bnd [OF frames_list_copy])
  fix remaining :: ref assume fresh: "n \<le> remaining"
  have body: "frames n (bnd (get_cards remaining) (\<lambda>rem.
              if c \<in> set rem then list_remove remaining c else ret ())) (\<lambda>u. True)" for c
    by (rule frames_bnd [OF frames_get_cards])
       (simp add: frames_list_remove [OF fresh] frames_ret)
  show "frames n (bnd (get_cards to_remove) (\<lambda>removed.
     bnd (fold_prog (\<lambda>c u.
            bnd (get_cards remaining) (\<lambda>rem.
              if c \<in> set rem then list_remove remaining c else ret ()))
          removed ()) (\<lambda>u. ret remaining))) ((\<le>) n)"
  proof (rule frames_bnd [OF frames_get_cards])
    fix removed :: "Card list"
    show "frames n (bnd (fold_prog (\<lambda>c u.
            bnd (get_cards remaining) (\<lambda>rem.
              if c \<in> set rem then list_remove remaining c else ret ()))
          removed ()) (\<lambda>u. ret remaining)) ((\<le>) n)"
      by (rule frames_bnd [OF frames_fold_prog [where I = "\<lambda>u. True"]])
         (simp_all add: body frames_ret fresh)
  qed
qed

lemma fresh_dict_lookup: "fresh_dict n d \<Longrightarrow> map_of d k = Some r \<Longrightarrow> n \<le> r"
  by (fastforce simp: fresh_dict_def list_all_iff dest: map_of_SomeD)

lemma frames_group_step:
  assumes "fresh_dict n d"
  shows "frames n (group_step key c d) (fresh_dict n)"
proof (cases "map_of d key")
  case None
  show ?thesis
    unfolding group_step_def None option.case
  proof (rule frames_bnd [OF frames_new_cards])
    fix r :: ref assume r: "n \<le> r"
    show "frames n (bnd (list_append r c) (\<lambda>u. ret (d @ [(key, r)]))) (fresh_dict n)"
      by (rule frames_bnd [OF frames_list_append [OF r]])
         (rule frames_ret, simp add: fresh_dict_def assms [unfolded fresh_dict_def] r)
  qed
next
  case (Some r)
  from fresh_dict_lookup [OF assms Some] have r: "n \<le> r" .
  show ?thesis
    unfolding group_step_def Some option.case
    by (rule frames_bnd [OF frames_list_append [OF r]]) (rule frames_ret, rule assms)
qed

lemma frames_group_by_heap: "frames n (group_by_heap key cs) (fresh_dict n)"
  unfolding group_by_heap_def
  by (rule frames_fold_prog) (simp_all add: frames_group_step fresh_dict_def)

lemma frames_find_pairs_heap: "frames n (find_pairs_heap cards_r) (\<lambda>ps. True)"
  unfolding find_pairs_heap_def
proof (rule frames_bnd [OF frames_get_cards], rule frames_bnd [OF frames_group_by_heap])
  fix card_counts :: "((int \<times> bool) \<times> ref) list"
  have step: "frames n (bnd (get_cards card_list) (\<lambda>cl.
           if length cl \<ge> 2 then bnd (new_cards (take 2 cl)) (\<lambda>p. ret (pairs @ [p]))
           else ret pairs)) (\<lambda>ps. True)" for card_list pairs
    by (rule frames_bnd [OF frames_get_cards])
       (auto intro!: frames_bnd [OF frames_new_cards] frames_ret)
  show "frames n (fold_prog (\<lambda>(key, card_list) pairs.
         bnd (get_cards card_list) (\<lambda>cl.
           if length cl \<ge> 2 then bnd (new_cards (take 2 cl)) (\<lambda>p. ret (pairs @ [p]))
           else ret pairs))
       card_counts []) (\<lambda>ps. True)"
    by (rule frames_fold_prog) (simp_all add: step split: prod.split)
qed

lemma frames_first_of_heap: "frames n (first_of_heap value_cards v) (\<lambda>c. True)"
  unfolding first_of_heap_def
  by (cases "map_of value_cards v")
     (auto intro!: frames_fail frames_bnd [OF frames_get_cards] frames_ret split: list.split)

lemma frames_add_sequence:
  "frames n (bnd (map_prog (first_of_heap value_cards) vs) (\<lambda>sc.
               bnd (new_cards sc) (\<lambda>s. ret (seqs @ [s])))) (\<lambda>ss. True)"
  by (rule frames_bnd [OF frames_map_prog [OF frames_first_of_heap]])
     (rule frames_bnd [OF frames_new_cards], rule frames_ret, simp)

lemma frames_sequences_of_case_heap:
  "frames n (sequences_of_case_heap u cards_r seqs0) (\<lambda>ss. True)"
  unfolding sequences_of_case_heap_def
proof (rule frames_bnd [OF frames_get_cards], rule frames_bnd [OF frames_new_cards],
    rule frames_bnd [OF frames_get_cards], rule frames_bnd [OF frames_group_by_heap])
  fix value_cards :: "(int \<times> ref) list"
  show "frames n
          (bnd (fold_prog (\<lambda>special_seq seqs.
            if list_all (\<lambda>v. v \<in> set (map fst value_cards)) special_seq
            then bnd (map_prog (first_of_heap value_cards) special_seq) (\<lambda>sc.
                 bnd (new_cards sc) (\<lambda>s. ret (seqs @ [s])))
            else ret seqs)
          SPECIAL_SEQUENCES seqs0) (\<lambda>seqs1.
     (let sorted_values = sort (map fst value_cards) in
      fold_prog (\<lambda>i seqs.
          (let v1 = sorted_values ! i; v2 = sorted_values ! (i + 1);
               v3 = sorted_values ! (i + 2) in
           if v2 = v1 + 1 \<and> v3 = v2 + 1 then
             (if [v1, v2, v3] \<notin> set SPECIAL_SEQUENCES
              then bnd (map_prog (first_of_heap value_cards) [v1, v2, v3]) (\<lambda>sc.
                   bnd (new_cards sc) (\<lambda>s. ret (seqs @ [s])))
              else ret seqs)
           else ret seqs))
        [0..<length sorted_values - 2] seqs1)))
          (\<lambda>ss. True)"
  proof (rule frames_bnd [where P = "\<lambda>ss. True"])
    show "frames n (fold_prog (\<lambda>special_seq seqs.
            if list_all (\<lambda>v. v \<in> set (map fst value_cards)) special_seq
            then bnd (map_prog (first_of_heap value_cards) special_seq) (\<lambda>sc.
                 bnd (new_cards sc) (\<lambda>s. ret (seqs @ [s])))
            else ret seqs)
          SPECIAL_SEQUENCES seqs0) (\<lambda>ss. True)"
      by (rule frames_fold_prog) (simp_all add: frames_add_sequence frames_ret)
  next
    fix seqs1 :: "ref list"
    show "frames n (let sorted_values = sort (map fst value_cards) in
      fold_prog (\<lambda>i seqs.
          (let v1 = sorted_values ! i; v2 = sorted_values ! (i + 1);
               v3 = sorted_values ! (i + 2) in
           if v2 = v1 + 1 \<and> v3 = v2 + 1 then
             (if [v1, v2, v3] \<notin> set SPECIAL_SEQUENCES
              then bnd (map_prog (first_of_heap value_cards) [v1, v2, v3]) (\<lambda>sc.
                   bnd (new_cards sc) (\<lambda>s. ret (seqs @ [s])))
              else ret seqs)
           else ret seqs))
        [0..<length sorted_values - 2] seqs1) (\<lambda>ss. True)"
      unfolding Let_def
      by (rule frames_fold_prog)
         (simp_all add: frames_add_sequence frames_ret del: map_prog.simps)
  qed
qed

lemma frames_find_sequences_heap: "frames n (find_sequences_heap cards_r) (\<lambda>ss. True)"
  unfolding find_sequences_heap_def
  by (rule frames_bnd [OF frames_sequences_of_case_heap]) (rule frames_sequences_of_case_heap)

lemma frames_try_form_sequences_recursive_heap:
  "frames n (try_form_sequences_recursive_heap fuel cards_r) (\<lambda>b. True)"
proof (induction fuel arbitrary: cards_r)
  case 0
  then show ?case by (simp add: frames_fail)
next
  case (Suc fuel)
  have body: "frames n (bnd (get_cards s) (\<lambda>sc.
              bnd (get_cards cards_r) (\<lambda>cs'.
                if list_all (\<lambda>c. c \<in> set cs') sc
                then bnd (remove_cards_from_list_heap cards_r s) (\<lambda>remaining.
                     try_form_sequences_recursive_heap fuel remaining)
                else ret False))) (\<lambda>b. True)" for s
    by (rule frames_bnd [OF frames_get_cards], rule frames_bnd [OF frames_get_cards])
       (auto intro!: frames_bnd [OF frames_remove_cards_from_list_heap] Suc.IH frames_ret)
  show ?case
    unfolding try_form_sequences_recursive_heap.simps
    by (rule frames_bnd [OF frames_get_cards])
       (auto intro!: frames_ret frames_bnd [OF frames_find_sequences_heap]
          frames_first_true body)
qed

lemma frames_can_form_all_sequences_heap:
  "frames n (can_form_all_sequences_heap fuel cards_r) (\<lambda>b. True)"
  unfolding can_form_all_sequences_heap_def
  by (rule frames_bnd [OF frames_get_cards])
     (auto intro!: frames_ret frames_try_form_sequences_recursive_heap)

lemma frames_find_all_sequences_heap:
  "frames n (find_all_sequences_heap fuel cards_r) (\<lambda>r. True)"
proof (induction fuel arbitrary: cards_r)
  case 0
  then show ?case by (simp add: frames_fail)
next
  case (Suc fuel)
  have body: "frames n (bnd (get_cards s) (\<lambda>sc.
              bnd (get_cards cards_r) (\<lambda>cs'.
                if list_all (\<lambda>c. c \<in> set cs') sc
                then bnd (remove_cards_from_list_heap cards_r s) (\<lambda>remaining.
                     bnd (find_all_sequences_heap fuel remaining) (\<lambda>rest_seqs.
                       case rest_seqs of
                         Some rest \<Rightarrow> ret (Some (s # rest))
                       | None \<Rightarrow> ret None))
                else ret None))) (\<lambda>r. True)" for s
    by (rule frames_bnd [OF frames_get_cards], rule frames_bnd [OF frames_get_cards])
       (auto intro!: frames_bnd [OF frames_remove_cards_from_list_heap]
          frames_bnd [OF Suc.IH] frames_ret split: option.split)
  show ?case
    unfolding find_all_sequences_heap.simps
    by (rule frames_bnd [OF frames_get_cards])
       (auto intro!: frames_ret frames_bnd [OF frames_find_sequences_heap]
          frames_first_result [where Q' = "\<lambda>r. True"] body)
qed

lemma frames_try_find_sequences_and_pair_heap:
  "frames n (try_find_sequences_and_pair_heap fuel cards_r) (\<lambda>r. True)"
proof -
  have body: "frames n (bnd (remove_cards_from_list_heap cards_r p) (\<lambda>remaining.
              bnd (get_cards remaining) (\<lambda>rem.
                if length rem mod 3 \<noteq> 0 then ret None
                else bnd (can_form_all_sequences_heap fuel remaining) (\<lambda>ok.
                  if ok then
                    bnd (find_all_sequences_heap fuel remaining) (\<lambda>found.
                    bnd (get_cards remaining) (\<lambda>rem'.
                      case found of
                        None \<Rightarrow> ret None
                      | Some seqs \<Rightarrow>
                          if seqs \<noteq> [] \<and> length seqs * 3 = length rem'
                          then ret (Some (seqs, p)) else ret None))
                  else ret None)))) (\<lambda>r. True)" for p
    by (intro frames_bnd [OF frames_remove_cards_from_list_heap]
          frames_bnd [OF frames_get_cards] frames_if frames_case_option frames_ret TrueI
          frames_bnd [OF frames_can_form_all_sequences_heap]
          frames_bnd [OF frames_find_all_sequences_heap])
  show ?thesis
    unfolding try_find_sequences_and_pair_heap_def
    by (intro frames_bnd [OF frames_get_cards] frames_if frames_ret TrueI
          frames_bnd [OF frames_find_pairs_heap]
          frames_first_result [where Q' = "\<lambda>r. True"] body)
qed

lemma frames_remove_times_heap:
  "n \<le> remaining \<Longrightarrow> frames n (remove_times_heap k c remaining) (\<lambda>u. True)"
  by (induction k) (auto intro!: frames_ret frames_bnd [OF frames_list_remove])

lemma frames_remove_listed_heap:
  "n \<le> remaining \<Longrightarrow> frames n (remove_listed_heap card_list remaining) (\<lambda>u. True)"
  unfolding remove_listed_heap_def
  by (rule frames_bnd [OF frames_get_cards])
     (rule frames_fold_prog, simp_all add: frames_list_remove)

lemma frames_forced_loop_heap:
  assumes "n \<le> remaining"
  shows "frames n (forced_loop_heap items forced remaining) (\<lambda>f. True)"
proof (induction items arbitrary: forced)
  case Nil
  then show ?case by (simp add: frames_ret)
next
  case (Cons p items)
  obtain c cnt where p: "p = (c, cnt)" by (cases p)
  show ?case
    unfolding p forced_loop_heap.simps
    by (auto intro!: Cons.IH frames_bnd [OF frames_get_cards] frames_bnd [OF frames_new_cards]
          frames_bnd [OF frames_remove_times_heap [OF assms]]
          frames_bnd [OF frames_remove_listed_heap [OF assms]])
qed

lemma frames_find_win_combination_heap:
  "frames n (find_win_combination_heap fuel cards_r) (\<lambda>r. True)"
  unfolding find_win_combination_heap_def
proof (rule frames_bnd [OF frames_get_cards])
  fix cs :: "Card list"
  show "frames n (if length cs \<noteq> 21 then ret None
       else bnd (list_copy cards_r) (\<lambda>remaining.
            bnd (get_cards cards_r) (\<lambda>counted.
            bnd (forced_loop_heap (Counter counted) [] remaining) (\<lambda>forced_triplets.
            bnd (get_cards remaining) (\<lambda>rem.
              if length rem mod 3 = 2 then
                bnd (try_find_sequences_and_pair_heap fuel remaining) (\<lambda>result.
                  case result of
                    Some (seqs, p) \<Rightarrow>
                      ret (Some \<lparr>triplets_at = forced_triplets, sequences_at = seqs,
                                  pair_at = p\<rparr>)
                  | None \<Rightarrow> ret None)
              else ret None))))) (\<lambda>r. True)"
  proof (cases "length cs \<noteq> 21")
    case True
    then show ?thesis by (simp add: frames_ret)
  next
    case False
    then show ?thesis
      by (simp only: if_False)
         (rule frames_bnd [OF frames_list_copy], rule frames_bnd [OF frames_get_cards],
          rule frames_bnd [OF frames_forced_loop_heap], assumption,
          rule frames_bnd [OF frames_get_cards],
          auto intro!: frames_ret frames_bnd [OF frames_try_find_sequences_and_pair_heap]
            split: option.split)
  qed
qed

lemma frames_group_huxi_heap: "frames n (group_huxi_heap g) (\<lambda>v. True)"
  unfolding group_huxi_heap_def
  by (rule frames_bnd [OF frames_get_group])
     (auto intro!: frames_bnd [OF frames_get_cards] frames_lift_error)

lemma frames_calculate_win_huxi_heap:
  "frames n (calculate_win_huxi_heap all_cards groups_r comb) (\<lambda>v. True)"
  unfolding calculate_win_huxi_heap_def
  by (rule frames_bnd [OF frames_get_groups],
      rule frames_bnd [OF frames_fold_prog [where I = "\<lambda>v. True"]],
      rule frames_bnd [OF frames_group_huxi_heap], rule frames_ret, simp, simp,
      rule frames_bnd [OF frames_fold_prog [where I = "\<lambda>v. True"]],
      rule frames_bnd [OF frames_get_cards], rule frames_bnd [OF frames_lift_error],
      rule frames_ret, simp, simp,
      rule frames_fold_prog, rule frames_bnd [OF frames_get_cards], rule frames_ret, simp, simp)

lemma frames_can_win_heap: "frames n (can_win_heap fuel hand) (\<lambda>v. True)"
  unfolding can_win_heap_def
proof (rule frames_bnd [OF frames_get_hand], clarify, rule frames_bnd [OF frames_list_copy],
    rule frames_bnd [OF frames_get_hand], clarify)
  fix all_cards :: ref and drawn :: "Card option"
  assume fresh: "n \<le> all_cards"
  have app: "frames n (case drawn of None \<Rightarrow> ret () | Some d \<Rightarrow> list_append all_cards d)
               (\<lambda>u. True)"
    by (cases drawn) (simp_all add: frames_ret frames_list_append [OF fresh])
  show "frames n
          (bnd (case drawn of None \<Rightarrow> ret () | Some d \<Rightarrow> list_append all_cards d) (\<lambda>u.
     bnd (find_win_combination_heap fuel all_cards) (\<lambda>win_combination.
       case win_combination of
         None \<Rightarrow> ret (False, 0, None)
       | Some comb \<Rightarrow>
           bnd (get_hand hand) (\<lambda>(cards2, drawn2, exposed_groups).
           bnd (calculate_win_huxi_heap all_cards exposed_groups comb) (\<lambda>huxi.
             if huxi < MIN_HUXI_TO_WIN then ret (False, huxi, Some comb)
             else ret (True, huxi, Some comb))))))
          (\<lambda>v. True)"
    by (rule frames_bnd [OF app], rule frames_bnd [OF frames_find_win_combination_heap])
       (auto intro!: frames_ret frames_bnd [OF frames_get_hand]
          frames_bnd [OF frames_calculate_win_huxi_heap] split: option.split)
qed

text \<open>
The forced-group extraction on the heap does to the list \<^verbatim>\<open>remaining\<close> what the
  extraction on values does to its list.
\<close>

lemma cards_in_less: "cards_in h r = Some cs \<Longrightarrow> r < length h"
  by (simp add: cards_in_def split: if_splits)

lemma get_cards_run: "cards_in h r = Some cs \<Longrightarrow> get_cards r h = (Inr cs, h)"
  by (auto simp: cards_in_def get_cards_def split: if_splits obj.splits)

lemma new_cards_run: "new_cards cs h = (Inr (length h), h @ [Cards cs])"
  by (simp add: new_cards_def)

lemma cards_in_new: "cards_in (h @ [Cards cs]) (length h) = Some cs"
  by (simp add: cards_in_def)

lemma cards_in_append: "cards_in h r = Some cs \<Longrightarrow> cards_in (h @ [x]) r = Some cs"
  by (auto simp: cards_in_def nth_append split: if_splits)

lemma list_remove_run:
  assumes "cards_in h r = Some cs" and "c \<in> set cs"
  shows "list_remove r c h = (Inr (), h[r := Cards (remove1 c cs)])"
    and "cards_in (h[r := Cards (remove1 c cs)]) r = Some (remove1 c cs)"
  using assms
  by (auto simp: list_remove_def bnd_def get_cards_run put_cards_def cards_in_def
      split: if_splits obj.splits)

lemma list_append_run:
  assumes "cards_in h r = Some cs"
  shows "list_append r c h = (Inr (), h[r := Cards (cs @ [c])])"
    and "cards_in (h[r := Cards (cs @ [c])]) r = Some (cs @ [c])"
  using assms
  by (auto simp: list_append_def bnd_def get_cards_run put_cards_def cards_in_def
      split: if_splits obj.splits)

lemma list_copy_run:
  assumes "cards_in h r = Some cs"
  shows "list_copy r h = (Inr (length h), h @ [Cards cs])"
  using assms by (simp add: list_copy_def bnd_def get_cards_run new_cards_run)

lemma remove_times_heap_run:
  assumes "cards_in h r = Some rem" and "remove_times k c rem = Inr rem'"
  shows "\<exists>h'. remove_times_heap k c r h = (Inr (), h') \<and> cards_in h' r = Some rem'"
  using assms
proof (induction k arbitrary: h rem)
  case 0
  then show ?case by (simp add: ret_def)
next
  case (Suc k)
  from Suc.prems(2) have mem: "c \<in> set rem"
    and rest: "remove_times k c (remove1 c rem) = Inr rem'"
    by (simp_all split: if_splits)
  note run = list_remove_run [OF Suc.prems(1) mem]
  from Suc.IH [OF run(2) rest] obtain h' where
    "remove_times_heap k c r (h[r := Cards (remove1 c rem)]) = (Inr (), h')"
    "cards_in h' r = Some rem'"
    by blast
  then show ?case by (simp add: bnd_def run(1))
qed

lemma remove_listed_heap_fold_run:
  assumes "cards_in h r = Some rem" and "remove_listed cl rem = Inr rem'"
  shows "\<exists>h'. fold_prog (\<lambda>c u. list_remove r c) cl () h = (Inr (), h')
           \<and> cards_in h' r = Some rem'"
  using assms
proof (induction cl arbitrary: h rem)
  case Nil
  then show ?case by (simp add: ret_def)
next
  case (Cons c cl)
  from Cons.prems(2) have mem: "c \<in> set rem"
    and rest: "remove_listed cl (remove1 c rem) = Inr rem'"
    by (simp_all split: if_splits)
  note run = list_remove_run [OF Cons.prems(1) mem]
  from Cons.IH [OF run(2) rest] obtain h' where
    "fold_prog (\<lambda>c u. list_remove r c) cl () (h[r := Cards (remove1 c rem)]) = (Inr (), h')"
    "cards_in h' r = Some rem'"
    by blast
  then show ?case by (simp add: bnd_def run(1))
qed

lemma forced_loop_heap_run:
  assumes "cards_in h r = Some rem" and "forced_loop items F rem = Inr (F', R)"
  shows "\<exists>refs h'. forced_loop_heap items fr r h = (Inr refs, h') \<and> cards_in h' r = Some R"
  using assms
proof (induction items arbitrary: h rem F fr)
  case Nil
  then show ?case by (simp add: ret_def)
next
  case (Cons p items)
  obtain c cnt where p: "p = (c, cnt)" by (cases p)
  let ?cl = "filter (\<lambda>x. x = c) rem"
  let ?h1 = "h @ [Cards ?cl]"
  have g0: "get_cards r h = (Inr rem, h)" by (rule get_cards_run [OF Cons.prems(1)])
  have r1: "cards_in ?h1 r = Some rem" by (rule cards_in_append [OF Cons.prems(1)])
  have cl1: "get_cards (length h) ?h1 = (Inr ?cl, ?h1)"
    by (rule get_cards_run [OF cards_in_new])
  show ?case
  proof (cases "cnt = 4")
    case True
    let ?h2 = "?h1 @ [Cards (take 3 ?cl)]"
    from Cons.prems(2) True obtain rem' where
      rt: "remove_times 3 c rem = Inr rem'"
      and rest: "forced_loop items (F @ [take 3 ?cl]) rem' = Inr (F', R)"
      by (auto simp: p Let_def split: sum.splits)
    have r2: "cards_in ?h2 r = Some rem" by (rule cards_in_append [OF r1])
    from remove_times_heap_run [OF r2 rt] obtain h3 where
      h3: "remove_times_heap 3 c r ?h2 = (Inr (), h3)" "cards_in h3 r = Some rem'"
      by blast
    from Cons.IH [OF h3(2) rest, where fr = "fr @ [length ?h1]"] obtain refs h' where
      "forced_loop_heap items (fr @ [length ?h1]) r h3 = (Inr refs, h')"
      "cards_in h' r = Some R"
      by blast
    then show ?thesis
      using True g0 cl1 h3(1) by (simp add: p bnd_def new_cards_run)
  next
    case False
    show ?thesis
    proof (cases "cnt = 3")
      case True
      from Cons.prems(2) True obtain rem' where
        rl: "remove_listed ?cl rem = Inr rem'"
        and rest: "forced_loop items (F @ [?cl]) rem' = Inr (F', R)"
        by (auto simp: p Let_def split: sum.splits)
      from remove_listed_heap_fold_run [OF r1 rl] obtain h3 where
        h3: "fold_prog (\<lambda>c u. list_remove r c) ?cl () ?h1 = (Inr (), h3)"
            "cards_in h3 r = Some rem'"
        by blast
      from Cons.IH [OF h3(2) rest, where fr = "fr @ [length h]"] obtain refs h' where
        "forced_loop_heap items (fr @ [length h]) r h3 = (Inr refs, h')"
        "cards_in h' r = Some R"
        by blast
      then show ?thesis
        using True g0 cl1 h3(1)
        by (simp add: p bnd_def new_cards_run remove_listed_heap_def)
    next
      case False
      with \<open>cnt \<noteq> 4\<close> Cons.prems(2) have "forced_loop items F rem = Inr (F', R)"
        by (simp add: p)
      from Cons.IH [OF Cons.prems(1) this, where fr = fr] show ?thesis
        using False \<open>cnt \<noteq> 4\<close> by (simp add: p)
    qed
  qed
qed

lemma find_win_combination_heap_None:
  assumes "cards_in h r = Some cs"
  shows "\<exists>h'. find_win_combination_heap fuel r h = (Inr None, h')"
proof (cases "length cs = 21")
  case False
  then show ?thesis
    by (simp add: find_win_combination_heap_def bnd_def get_cards_run [OF assms] ret_def)
next
  case True
  let ?h1 = "h @ [Cards cs]"
  from forced_groups_char [of cs] obtain F R where
    fl: "forced_loop (Counter cs) [] cs = Inr (F, R)"
    and len: "length R + 3 * length F = length cs"
    unfolding forced_groups_def by auto
  from len True have m: "length R mod 3 \<noteq> 2" by presburger
  have r1: "cards_in ?h1 r = Some cs" by (rule cards_in_append [OF assms])
  from forced_loop_heap_run [OF cards_in_new [of h cs] fl, where fr = "[]"] obtain refs h2 where
    h2: "forced_loop_heap (Counter cs) [] (length h) ?h1 = (Inr refs, h2)"
        "cards_in h2 (length h) = Some R"
    by blast
  show ?thesis
    using True m h2
    by (simp add: find_win_combination_heap_def bnd_def get_cards_run [OF assms]
        list_copy_run [OF assms] get_cards_run [OF r1] get_cards_run [OF h2(2)] ret_def)
qed

lemma those_map_cong:
  assumes "those (map f xs) = Some ys" and "\<And>x y. x \<in> set xs \<Longrightarrow> f x = Some y \<Longrightarrow> g x = Some y"
  shows "those (map g xs) = Some ys"
  using assms
proof (induction xs arbitrary: ys)
  case Nil
  then show ?case by simp
next
  case (Cons x xs)
  from Cons.prems(1) obtain y ys' where y: "f x = Some y" "those (map f xs) = Some ys'"
      "ys = y # ys'"
    by (auto split: option.splits)
  from Cons.prems(2) [of x y] y(1) have "g x = Some y" by simp
  moreover from Cons.IH [OF y(2)] Cons.prems(2) have "those (map g xs) = Some ys'" by simp
  ultimately show ?case using y(3) by simp
qed

lemma cards_in_extends:
  assumes "length h \<le> length h'" and "\<forall>a < length h. h' ! a = h ! a"
    and "cards_in h r = Some cs"
  shows "cards_in h' r = Some cs"
  using assms by (auto simp: cards_in_def split: if_splits)

lemma group_in_extends:
  assumes "length h \<le> length h'" and "\<forall>a < length h. h' ! a = h ! a"
    and "group_in h r = Some g"
  shows "group_in h' r = Some g"
proof -
  from assms(3) obtain t c b cs where r: "r < length h" "h ! r = GroupDict t c b"
      "cards_in h c = Some cs" "g = \<lparr>g_type = t, g_cards = cs, g_is_concealed = b\<rparr>"
    by (auto simp: group_in_def split: if_splits obj.splits option.splits)
  from cards_in_extends [OF assms(1,2) r(3)] have "cards_in h' c = Some cs" .
  moreover from r(1,2) assms(1,2) have "r < length h'" "h' ! r = GroupDict t c b" by auto
  ultimately show ?thesis by (simp add: group_in_def r(4))
qed

lemma groups_in_extends:
  assumes "length h \<le> length h'" and "\<forall>a < length h. h' ! a = h ! a"
    and "groups_in h r = Some gs"
  shows "groups_in h' r = Some gs"
proof -
  from assms(3) obtain refs where r: "r < length h" "h ! r = Groups refs"
      "those (map (group_in h) refs) = Some gs"
    by (auto simp: groups_in_def split: if_splits obj.splits)
  have "those (map (group_in h') refs) = Some gs"
    by (rule those_map_cong [OF r(3)]) (rule group_in_extends [OF assms(1,2)])
  moreover from r(1,2) assms(1,2) have "r < length h'" "h' ! r = Groups refs" by auto
  ultimately show ?thesis by (simp add: groups_in_def)
qed

lemma hand_in_extends:
  assumes "length h \<le> length h'" and "\<forall>a < length h. h' ! a = h ! a"
    and "hand_in h r = Some hnd"
  shows "hand_in h' r = Some hnd"
proof -
  from assms(3) obtain c d g cs gs where r: "r < length h" "h ! r = HandObj c d g"
      "cards_in h c = Some cs" "groups_in h g = Some gs"
      "hnd = \<lparr>cards = cs, drawn_card = d, exposed_groups = gs\<rparr>"
    by (auto simp: hand_in_def split: if_splits obj.splits option.splits)
  from cards_in_extends [OF assms(1,2) r(3)] have "cards_in h' c = Some cs" .
  moreover from groups_in_extends [OF assms(1,2) r(4)] have "groups_in h' g = Some gs" .
  moreover from r(1,2) assms(1,2) have "r < length h'" "h' ! r = HandObj c d g" by auto
  ultimately show ?thesis by (simp add: hand_in_def r(5))
qed

lemma can_win_heap_run:
  assumes "hand_in h hand = Some hnd"
  shows "\<exists>h'. can_win_heap fuel hand h = (Inr (False, 0, None), h')"
proof -
  from assms obtain c d g cs where r: "hand < length h" "h ! hand = HandObj c d g"
      "cards_in h c = Some cs"
    by (auto simp: hand_in_def split: if_splits obj.splits option.splits)
  let ?h1 = "h @ [Cards cs]"
  have g0: "get_hand hand h = (Inr (c, d, g), h)" using r by (simp add: get_hand_def)
  have g1: "get_hand hand ?h1 = (Inr (c, d, g), ?h1)" using r
    by (simp add: get_hand_def nth_append)
  obtain h2 where h2: "(case d of None \<Rightarrow> ret () | Some x \<Rightarrow> list_append (length h) x) ?h1
                        = (Inr (), h2)"
    and c2: "\<exists>ac. cards_in h2 (length h) = Some ac"
  proof (cases d)
    case None
    then have "(case d of None \<Rightarrow> ret () | Some x \<Rightarrow> list_append (length h) x) ?h1
                  = (Inr (), ?h1)"
      by (simp add: ret_def)
    moreover have "\<exists>ac. cards_in ?h1 (length h) = Some ac" by (simp add: cards_in_new)
    ultimately show ?thesis by (rule that)
  next
    case (Some x)
    note run = list_append_run [OF cards_in_new [of h cs], of x]
    from Some run(1) have "(case d of None \<Rightarrow> ret () | Some x \<Rightarrow> list_append (length h) x) ?h1
                  = (Inr (), ?h1[length h := Cards (cs @ [x])])"
      by simp
    moreover from run(2) have "\<exists>ac. cards_in (?h1[length h := Cards (cs @ [x])]) (length h) = Some ac"
      by blast
    ultimately show ?thesis by (rule that)
  qed
  from c2 obtain ac where "cards_in h2 (length h) = Some ac" by blast
  from find_win_combination_heap_None [OF this, of fuel] obtain h3 where
    "find_win_combination_heap fuel (length h) h2 = (Inr None, h3)" by blast
  then have "can_win_heap fuel hand h = (Inr (False, 0, None), h3)"
    using g0 g1 h2 by (simp add: can_win_heap_def bnd_def list_copy_run [OF r(3)] ret_def)
  then show ?thesis by (rule exI)
qed

text \<open>
On the 17 free tiles of \<open>ti_hand\<close> the search on the heap finds the decomposition that
  the search on values finds, and leaves the list it was handed as it was.
\<close>

lemma heap_search_on_ti_hand:
  "(case try_find_sequences_and_pair_heap 6 0 [Cards (all_cards_of ti_hand)] of
      (Inr (Some (seqs, p)), h') \<Rightarrow>
        Some (map (cards_in h') seqs, cards_in h' p, cards_in h' 0)
    | (r, h') \<Rightarrow> None)
   = Some ([Some [minor 1, minor 2, minor 3], Some [minor 4, minor 5, minor 6],
            Some [minor 7, minor 8, minor 9], Some [major 1, major 2, major 3],
            Some [major 4, major 5, major 6]],
           Some [major 8, major 8],
           Some (all_cards_of ti_hand))"
  by code_simp

section \<open>Theorems\<close>

text \<open>
  C9. For every hand with no pending drawn tile and every tile \<open>t\<close>, \<^verbatim>\<open>draw_card(t)\<close>
  followed by \<^verbatim>\<open>discard_drawn_card()\<close> succeeds, gives \<open>t\<close> back, leaves the multiset of
  concealed tiles exactly as before the draw, and leaves no pending drawn tile (the hand
  is in fact the hand before the draw).
\<close>

theorem draw_then_discard_restores:
  assumes "drawn_card h = None"
  shows "\<exists>h1 h2. draw_card t h = Inr h1 \<and> discard_drawn_card h1 = Inr (t, h2)
           \<and> mset (cards h2) = mset (cards h) \<and> drawn_card h2 = None \<and> h2 = h"
  using assms by (simp add: draw_card_def discard_drawn_card_def)

theorem draw_then_discard_restores_witness:
  "drawn_card \<lparr>cards = [minor 1, major 2, minor 1], drawn_card = None, exposed_groups = []\<rparr> = None
   \<and> (\<exists>h1 h2.
        draw_card (major 7)
          \<lparr>cards = [minor 1, major 2, minor 1], drawn_card = None, exposed_groups = []\<rparr> = Inr h1
        \<and> discard_drawn_card h1 = Inr (major 7, h2)
        \<and> mset (cards h2) = mset [minor 1, major 2, minor 1]
        \<and> drawn_card h2 = None)"
proof -
  let ?h = "\<lparr>cards = [minor 1, major 2, minor 1], drawn_card = None, exposed_groups = []\<rparr>"
  have a: "drawn_card ?h = None" by simp
  obtain h1 h2 where "draw_card (major 7) ?h = Inr h1"
      and "discard_drawn_card h1 = Inr (major 7, h2)"
      and "mset (cards h2) = mset (cards ?h)" and "drawn_card h2 = None"
    using draw_then_discard_restores [OF a, of "major 7"] by blast
  then have "\<exists>h1 h2. draw_card (major 7) ?h = Inr h1
        \<and> discard_drawn_card h1 = Inr (major 7, h2)
        \<and> mset (cards h2) = mset [minor 1, major 2, minor 1]
        \<and> drawn_card h2 = None"
    by (intro exI [of _ h1] exI [of _ h2]) simp
  with a show ?thesis by (rule conjI)
qed

text \<open>
  C5. The huxi scorer gives a concealed triplet 3 (minor) or 6 (major), an exposed triplet
  1 or 3, a concealed quadruplet 9 or 12, an exposed quadruplet 6 or 9, both as the
  functions of the scorer and as the contribution of a committed \<^verbatim>\<open>wei\<close>, \<^verbatim>\<open>peng\<close>,
  \<^verbatim>\<open>ti\<close> or \<^verbatim>\<open>pao\<close> group. The score converter maps a total huxi \<open>h\<close> to 0 points
  when \<open>h < 15\<close> and to \<open>1 + floor ((h - 15) / 3)\<close> otherwise: 15 gives 1 point, 18
  gives 2, 27 gives 5.
\<close>

theorem huxi_table_and_score:
  "calculate_triplet_huxi [c, c, c] False = Inr (if is_uppercase c then 6 else 3)
   \<and> calculate_triplet_huxi [c, c, c] True = Inr (if is_uppercase c then 3 else 1)
   \<and> calculate_quadruplet_huxi [c, c, c, c] False = Inr (if is_uppercase c then 12 else 9)
   \<and> calculate_quadruplet_huxi [c, c, c, c] True = Inr (if is_uppercase c then 9 else 6)
   \<and> group_huxi \<lparr>g_type = ''wei'', g_cards = [c, c, c], g_is_concealed = True\<rparr>
         = Inr (if is_uppercase c then 6 else 3)
   \<and> group_huxi \<lparr>g_type = ''peng'', g_cards = [c, c, c], g_is_concealed = False\<rparr>
         = Inr (if is_uppercase c then 3 else 1)
   \<and> group_huxi \<lparr>g_type = ''ti'', g_cards = [c, c, c, c], g_is_concealed = False\<rparr>
         = Inr (if is_uppercase c then 12 else 9)
   \<and> group_huxi \<lparr>g_type = ''pao'', g_cards = [c, c, c, c], g_is_concealed = False\<rparr>
         = Inr (if is_uppercase c then 9 else 6)
   \<and> calculate_score h = (if h < 15 then 0 else 1 + (h - 15) div 3)
   \<and> calculate_score 15 = 1 \<and> calculate_score 18 = 2 \<and> calculate_score 27 = 5"
  by (simp add: calculate_triplet_huxi_def calculate_quadruplet_huxi_def group_huxi_def
      calculate_score_def MIN_HUXI_TO_WIN_def HUXI_PER_EXTRA_SCORE_def BASE_SCORE_def)

theorem huxi_table_and_score_witness:
  "calculate_triplet_huxi [minor 4, minor 4, minor 4] False = Inr 3
   \<and> calculate_quadruplet_huxi [major 9, major 9, major 9, major 9] False = Inr 12
   \<and> calculate_score (3 + 12) = 1
   \<and> calculate_score 14 = 0
   \<and> calculate_score 22 = 3"
  using huxi_table_and_score [of "minor 4" 15] huxi_table_and_score [of "major 9" 14]
    huxi_table_and_score [of "major 9" 22]
  by (simp add: minor_def major_def)


text \<open>
  C10. \<^verbatim>\<open>Hand.remove_cards\<close> is not atomic when a tile is requested more often than
  the hand holds it: with the concealed tiles \<open>[minor 1, minor 2]\<close> and the request
  \<open>[minor 1, minor 1]\<close> the membership test of the first loop passes for both requested
  tiles, the second loop removes the only \<open>minor 1\<close>, and the second
  \<^verbatim>\<open>self.cards.remove\<close> raises \<^verbatim>\<open>ValueError\<close>. The call returns neither \<^verbatim>\<open>True\<close> nor
  \<^verbatim>\<open>False\<close> and leaves the hand with one of the two requested tiles removed.
\<close>

theorem remove_cards_duplicate_request:
  "remove_cards [minor 1, minor 1]
     \<lparr>cards = [minor 1, minor 2], drawn_card = None, exposed_groups = []\<rparr>
   = (Inl ValueError, \<lparr>cards = [minor 2], drawn_card = None, exposed_groups = []\<rparr>)"
  by (simp add: remove_cards_def minor_def)


text \<open>
  C2. In a player state whose committed \<^verbatim>\<open>wei\<close> groups each hold three copies of one
  tile, and for a discarded tile \<open>d\<close> of which the player holds at most 3 copies (the
  deck has 4 of every tile and the discarded one is the fourth), \<^verbatim>\<open>can_pao(d)\<close> is true
  if and only if exactly 3 concealed tiles equal \<open>d\<close> or a committed \<^verbatim>\<open>wei\<close> group of
  \<open>d\<close> exists; either alone suffices.
\<close>

theorem can_pao_exact:
  assumes wf: "wei_groups_well_formed h" and deck: "copies_held h d \<le> 3"
  shows "can_pao h d \<longleftrightarrow>
           count_exact_card h d False = 3
         \<or> (\<exists>g \<in> set (exposed_groups h). g_type g = ''wei'' \<and> g_cards g = [d, d, d])"
proof (cases "\<exists>g \<in> set (exposed_groups h). g_type g = ''wei'' \<and> g_cards g = [d, d, d]")
  case True
  then obtain g where "g \<in> set (exposed_groups h)" "g_cards g = [d, d, d]" by blast
  then have "3 \<le> sum_list (map (\<lambda>g. count_list (g_cards g) d) (exposed_groups h))"
    by (rule wei_group_copies)
  with deck have "count_list (cards h) d = 0" by (simp add: copies_held_def)
  then have "count_exact_card h d False = 0" by (simp add: count_exact_card_concealed)
  moreover from wf True have "wei_count_of d (exposed_groups h) = 3"
    using wei_count_of_wf [of "exposed_groups h" d] by (simp add: wei_groups_well_formed_def)
  ultimately have "can_pao h d" by (simp add: can_pao_def)
  with True show ?thesis by simp
next
  case False
  with wf have "wei_count_of d (exposed_groups h) = 0"
    using wei_count_of_wf [of "exposed_groups h" d] by (simp add: wei_groups_well_formed_def)
  then have "can_pao h d \<longleftrightarrow> count_exact_card h d False = 3" by (simp add: can_pao_def)
  with False show ?thesis by blast
qed

theorem can_pao_exact_witness:
  "wei_groups_well_formed pao_hand
   \<and> copies_held pao_hand (minor 5) \<le> 3
   \<and> copies_held pao_hand (minor 7) \<le> 3
   \<and> copies_held pao_hand (major 1) \<le> 3
   \<and> can_pao pao_hand (minor 5)
   \<and> can_pao pao_hand (minor 7)
   \<and> \<not> can_pao pao_hand (major 1)"
proof -
  have wf: "wei_groups_well_formed pao_hand"
    by (simp add: wei_groups_well_formed_def pao_hand_def)
  have c5: "copies_held pao_hand (minor 5) \<le> 3"
    and c7: "copies_held pao_hand (minor 7) \<le> 3"
    and c1: "copies_held pao_hand (major 1) \<le> 3"
    by (simp_all add: copies_held_def pao_hand_def minor_def major_def)
  have p5: "can_pao pao_hand (minor 5)"
    unfolding can_pao_exact [OF wf c5] by (simp add: pao_hand_def)
  have p7: "can_pao pao_hand (minor 7)"
    unfolding can_pao_exact [OF wf c7]
    by (simp add: pao_hand_def count_exact_card_def minor_def major_def)
  have p1: "\<not> can_pao pao_hand (major 1)"
    unfolding can_pao_exact [OF wf c1]
    by (simp add: pao_hand_def count_exact_card_def minor_def major_def)
  from wf c5 c7 c1 p5 p7 p1 show ?thesis by (intro conjI)
qed

text \<open>
  C4. The forced-group extraction of \<^verbatim>\<open>_find_win_combination\<close> never raises, and every
  group it commits is three copies of one tile, of a class with 3 or 4 members. For a
  class \<open>c\<close> with exactly 4 members it commits exactly one group \<open>[c, c, c]\<close> and leaves
  exactly 1 tile of the class in the remaining pool (so never a 4-tile group and never a
  2-tile remnant); for a class with exactly 3 members it commits the one group
  \<open>[c, c, c]\<close> and leaves no tile of the class. \<^verbatim>\<open>PatternMatcher.find_triplets\<close> likewise
  returns only groups of three copies of one tile, and exactly one group \<open>[c, c, c]\<close> for
  a class with 4 members.
\<close>

theorem forced_groups_four_of_a_kind:
  "(\<exists>forced remaining. forced_groups cs = Inr (forced, remaining)
     \<and> (\<forall>g \<in> set forced. \<exists>x. g = [x, x, x] \<and> (count_list cs x = 3 \<or> count_list cs x = 4))
     \<and> (count_list cs c = 4 \<longrightarrow>
           count_list forced [c, c, c] = 1 \<and> count_list remaining c = 1)
     \<and> (count_list cs c = 3 \<longrightarrow>
           count_list forced [c, c, c] = 1 \<and> count_list remaining c = 0))
   \<and> (\<forall>g \<in> set (find_triplets cs). \<exists>x. g = [x, x, x] \<and> 3 \<le> count_list cs x)
   \<and> (count_list cs c = 4 \<longrightarrow> count_list (find_triplets cs) [c, c, c] = 1)"
proof (intro conjI impI ballI)
  show "\<exists>forced remaining. forced_groups cs = Inr (forced, remaining)
     \<and> (\<forall>g \<in> set forced. \<exists>x. g = [x, x, x] \<and> (count_list cs x = 3 \<or> count_list cs x = 4))
     \<and> (count_list cs c = 4 \<longrightarrow>
           count_list forced [c, c, c] = 1 \<and> count_list remaining c = 1)
     \<and> (count_list cs c = 3 \<longrightarrow>
           count_list forced [c, c, c] = 1 \<and> count_list remaining c = 0)"
    by (rule forced_groups_classes)
next
  fix g assume "g \<in> set (find_triplets cs)"
  then show "\<exists>x. g = [x, x, x] \<and> 3 \<le> count_list cs x"
    unfolding find_triplets_mem by blast
next
  assume "count_list cs c = 4"
  then have "3 \<le> count_list cs c" by simp
  then have "[c, c, c] \<in> set (find_triplets cs)" unfolding find_triplets_mem by blast
  with find_triplets_distinct [of cs] show "count_list (find_triplets cs) [c, c, c] = 1"
    by (rule distinct_count_list_1)
qed

theorem forced_groups_four_of_a_kind_witness:
  "count_list [minor 1, major 2, minor 1, minor 1, major 2, minor 6, minor 1, major 2] (minor 1) = 4
   \<and> count_list [minor 1, major 2, minor 1, minor 1, major 2, minor 6, minor 1, major 2] (major 2) = 3
   \<and> forced_groups [minor 1, major 2, minor 1, minor 1, major 2, minor 6, minor 1, major 2]
       = Inr ([[minor 1, minor 1, minor 1], [major 2, major 2, major 2]], [minor 6, minor 1])
   \<and> find_triplets [minor 1, major 2, minor 1, minor 1, major 2, minor 6, minor 1, major 2]
       = [[minor 1, minor 1, minor 1], [major 2, major 2, major 2]]
   \<and> (\<exists>forced remaining.
         forced_groups [minor 1, major 2, minor 1, minor 1, major 2, minor 6, minor 1, major 2]
           = Inr (forced, remaining)
         \<and> count_list forced [minor 1, minor 1, minor 1] = 1
         \<and> count_list remaining (minor 1) = 1)"
proof -
  let ?cs = "[minor 1, major 2, minor 1, minor 1, major 2, minor 6, minor 1, major 2]"
  have a: "count_list ?cs (minor 1) = 4" by (simp add: minor_def major_def)
  have b: "count_list ?cs (major 2) = 3" by (simp add: minor_def major_def)
  have c: "forced_groups ?cs
       = Inr ([[minor 1, minor 1, minor 1], [major 2, major 2, major 2]], [minor 6, minor 1])"
    by code_simp
  have t: "find_triplets ?cs = [[minor 1, minor 1, minor 1], [major 2, major 2, major 2]]"
    by code_simp
  from forced_groups_four_of_a_kind [of ?cs "minor 1"] a
  have d: "\<exists>forced remaining. forced_groups ?cs = Inr (forced, remaining)
         \<and> count_list forced [minor 1, minor 1, minor 1] = 1
         \<and> count_list remaining (minor 1) = 1"
    by blast
  from a b c t d show ?thesis by (intro conjI)
qed

text \<open>
  C1. The list on which \<^verbatim>\<open>can_win\<close> runs its count test is \<^verbatim>\<open>hand.cards\<close> plus the
  drawn tile; the tiles of the committed groups are not counted. On \<open>ti_hand\<close> the
  combined count is 21, the list has 17 tiles, \<^verbatim>\<open>_find_win_combination\<close> returns
  \<^verbatim>\<open>None\<close> at its test \<^verbatim>\<open>len(cards) != 21\<close>, and the query answers
  \<^verbatim>\<open>(False, 0, None)\<close>.
\<close>

theorem can_win_count_excludes_groups:
  "get_total_count ti_hand = 21
   \<and> length (all_cards_of ti_hand) = 17
   \<and> find_win_combination (all_cards_of ti_hand) = Inr None
   \<and> can_win ti_hand = Inr (False, 0, None)"
  by (simp add: get_total_count_def all_cards_of_def ti_hand_def find_win_combination_def
      can_win_def win_query_def)

text \<open>
  C3. \<^verbatim>\<open>can_win\<close> answers \<^verbatim>\<open>(False, 0, None)\<close> for every hand, never an error: a list
  of another length than 21 is rejected, and from a list of 21 tiles the forced-group
  extraction removes a multiple of 3, so that \<^verbatim>\<open>len(remaining) % 3 == 2\<close> fails. The
  branch that computes the huxi of a found combination and compares it with 15 is never
  reached, also not on \<open>ti_hand\<close>, whose 17 free tiles the search itself decomposes
  (lemma \<open>ti_hand_decomposition\<close>: five sequences, a pair, 21 huxi with the committed
  group).
\<close>

theorem can_win_never_accepts: "can_win h = Inr (False, 0, None)"
  by (simp add: can_win_def win_query_def find_win_combination_None)

text \<open>
  C6. When a tile \<open>d\<close> is pending and the first committed \<^verbatim>\<open>wei\<close> group headed by
  \<open>d\<close> is at position \<open>i\<close>, \<^verbatim>\<open>do_ti\<close> succeeds: it removes that group, appends one
  \<^verbatim>\<open>ti\<close> group holding the group's tiles followed by \<open>d\<close>, clears the pending tile,
  and leaves the concealed tiles and the other groups as they are. When the \<^verbatim>\<open>wei\<close>
  group is the three tiles \<open>[d, d, d]\<close>, the new group scores the concealed-quadruplet
  value (12 for a major tile, 9 for a minor one), and the win huxi over the committed
  groups after the upgrade is the huxi before it, less the triplet's value (6 or 3),
  plus the quadruplet's value: the three original tiles are not scored a second time.
\<close>

theorem do_ti_upgrade:
  assumes drawn: "drawn_card h = Some d"
    and idx: "wei_group_idx d (exposed_groups h) = Some i"
  shows "i < length (exposed_groups h)
    \<and> g_type (exposed_groups h ! i) = ''wei''
    \<and> do_ti h =
        Inr (h\<lparr>exposed_groups :=
                 take i (exposed_groups h) @ drop (Suc i) (exposed_groups h)
                 @ [\<lparr>g_type = ''ti'', g_cards = g_cards (exposed_groups h ! i) @ [d],
                     g_is_concealed = False\<rparr>],
               drawn_card := None\<rparr>)
    \<and> (g_cards (exposed_groups h ! i) = [d, d, d] \<longrightarrow>
          group_huxi \<lparr>g_type = ''ti'', g_cards = g_cards (exposed_groups h ! i) @ [d],
                      g_is_concealed = False\<rparr>
            = Inr (if is_uppercase d then 12 else 9)
        \<and> (\<forall>h' x. do_ti h = Inr h'
               \<and> calculate_win_huxi ac (exposed_groups h) comb = Inr x \<longrightarrow>
             calculate_win_huxi ac (exposed_groups h') comb
               = Inr (x - (if is_uppercase d then 6 else 3)
                        + (if is_uppercase d then 12 else 9))))"
proof -
  let ?gs = "exposed_groups h"
  let ?tg = "\<lparr>g_type = ''ti'', g_cards = g_cards (?gs ! i) @ [d], g_is_concealed = False\<rparr>"
  from wei_group_idx_Some [OF idx] have i: "i < length ?gs" and w: "is_wei_of d (?gs ! i)"
    by simp_all
  from w have wt: "g_type (?gs ! i) = ''wei''" by (simp add: is_wei_of_def)
  from i w have ex: "list_ex (is_wei_of d) ?gs" by (auto simp: list_ex_iff)
  have can: "can_ti h" using drawn ex by (simp add: can_ti_def Let_def)
  have res: "do_ti h = Inr (h\<lparr>exposed_groups := take i ?gs @ drop (Suc i) ?gs @ [?tg],
                               drawn_card := None\<rparr>)"
    using can drawn idx
    by (simp add: do_ti_def Let_def clear_drawn_card_def add_exposed_group_def pop_at_def)
  have score: "group_huxi ?tg = Inr (if is_uppercase d then 12 else 9)
        \<and> (\<forall>h' x. do_ti h = Inr h'
               \<and> calculate_win_huxi ac ?gs comb = Inr x \<longrightarrow>
             calculate_win_huxi ac (exposed_groups h') comb
               = Inr (x - (if is_uppercase d then 6 else 3)
                        + (if is_uppercase d then 12 else 9)))"
    if ws: "g_cards (?gs ! i) = [d, d, d]"
  proof (intro conjI allI impI)
    show "group_huxi ?tg = Inr (if is_uppercase d then 12 else 9)"
      using ws by (simp add: group_huxi_def calculate_quadruplet_huxi_def)
  next
    fix h' x
    assume a: "do_ti h = Inr h' \<and> calculate_win_huxi ac ?gs comb = Inr x"
    have tg: "?tg = \<lparr>g_type = ''ti'', g_cards = [d, d, d, d], g_is_concealed = False\<rparr>"
      using ws by simp
    from a res have gs': "exposed_groups h' = pop_at i ?gs @ [?tg]"
      by (auto simp: pop_at_def)
    note up = upgraded_groups_huxi [OF i wt ws tg]
    from a have x: "calculate_win_huxi ac ?gs comb = Inr x" by simp
    show "calculate_win_huxi ac (exposed_groups h') comb
               = Inr (x - (if is_uppercase d then 6 else 3)
                        + (if is_uppercase d then 12 else 9))"
      using x unfolding gs' calculate_win_huxi_eq up
      by (auto split: if_splits)
  qed
  from i wt res score show ?thesis by blast
qed


theorem do_ti_upgrade_witness:
  "drawn_card wei_hand = Some (major 5)
   \<and> wei_group_idx (major 5) (exposed_groups wei_hand) = Some 1
   \<and> do_ti wei_hand =
        Inr \<lparr>cards = [minor 2, minor 3], drawn_card = None,
             exposed_groups =
               [\<lparr>g_type = ''peng'', g_cards = [minor 1, minor 1, minor 1],
                  g_is_concealed = False\<rparr>,
                \<lparr>g_type = ''ti'', g_cards = [major 5, major 5, major 5, major 5],
                  g_is_concealed = False\<rparr>]\<rparr>
   \<and> calculate_win_huxi [] (exposed_groups wei_hand)
         \<lparr>triplets = [], sequences = [], pair = []\<rparr> = Inr 7
   \<and> calculate_win_huxi []
         [\<lparr>g_type = ''peng'', g_cards = [minor 1, minor 1, minor 1], g_is_concealed = False\<rparr>,
          \<lparr>g_type = ''ti'', g_cards = [major 5, major 5, major 5, major 5],
            g_is_concealed = False\<rparr>]
         \<lparr>triplets = [], sequences = [], pair = []\<rparr> = Inr 13"
proof -
  let ?comb = "\<lparr>triplets = [], sequences = [], pair = []\<rparr>"
  let ?h' = "\<lparr>cards = [minor 2, minor 3], drawn_card = None,
             exposed_groups =
               [\<lparr>g_type = ''peng'', g_cards = [minor 1, minor 1, minor 1],
                  g_is_concealed = False\<rparr>,
                \<lparr>g_type = ''ti'', g_cards = [major 5, major 5, major 5, major 5],
                  g_is_concealed = False\<rparr>]\<rparr>"
  have a: "drawn_card wei_hand = Some (major 5)" by (simp add: wei_hand_def)
  have b: "wei_group_idx (major 5) (exposed_groups wei_hand) = Some 1"
    by (simp add: wei_hand_def is_wei_of_def minor_def major_def)
  have c: "g_cards (exposed_groups wei_hand ! 1) = [major 5, major 5, major 5]"
    by (simp add: wei_hand_def)
  have u: "is_uppercase (major 5)" by (simp add: major_def)
  have x: "calculate_win_huxi [] (exposed_groups wei_hand) ?comb = Inr 7"
    by (simp add: wei_hand_def calculate_win_huxi_def group_huxi_def
        calculate_triplet_huxi_def minor_def major_def)
  note t = do_ti_upgrade [OF a b, of "[]" ?comb]
  from t have d: "do_ti wei_hand = Inr ?h'" by (simp add: wei_hand_def)
  from t c have "\<forall>h' x. do_ti wei_hand = Inr h'
               \<and> calculate_win_huxi [] (exposed_groups wei_hand) ?comb = Inr x \<longrightarrow>
             calculate_win_huxi [] (exposed_groups h') ?comb
               = Inr (x - (if is_uppercase (major 5) then 6 else 3)
                        + (if is_uppercase (major 5) then 12 else 9))"
    by blast
  with d x have "calculate_win_huxi [] (exposed_groups ?h') ?comb
               = Inr (7 - (if is_uppercase (major 5) then 6 else 3)
                        + (if is_uppercase (major 5) then 12 else 9))"
    by blast
  then have e: "calculate_win_huxi [] (exposed_groups ?h') ?comb = Inr 13"
    using u by simp
  from a b d x e show ?thesis by simp
qed

text \<open>
  C7. For a valid discarded tile \<open>d\<close> and a hand of valid tiles, \<^verbatim>\<open>can_chi(d)\<close> returns
  exactly the pairs of concealed tiles at two different positions \<open>i < j\<close> that form a
  sequence of the specification with \<open>d\<close>: a list is returned if and only if it is such a
  pair, the number of returned candidates is the number of such pairs of positions (one
  candidate for each pair of physical tiles, so no candidate uses one physical tile
  twice), and every tile of every candidate has the rank of \<open>d\<close>.
\<close>

theorem can_chi_exact:
  assumes d: "valid_card d" and cs: "\<forall>c \<in> set (cards h). valid_card c"
  shows "(\<forall>x. x \<in> set (can_chi h d) \<longleftrightarrow>
            (\<exists>i j. i < j \<and> j < length (cards h) \<and> x = [cards h ! i, cards h ! j]
                   \<and> sequence_as_specified d (cards h ! i) (cards h ! j)))
       \<and> length (can_chi h d) =
           card {(i, j). i < j \<and> j < length (cards h)
                         \<and> sequence_as_specified d (cards h ! i) (cards h ! j)}
       \<and> (\<forall>x \<in> set (can_chi h d). \<forall>c \<in> set x. is_uppercase c = is_uppercase d)"
proof -
  let ?n = "length (cards h)"
  let ?Q = "\<lambda>(i, j). is_valid_sequence [d, cards h ! i, cards h ! j]"
  let ?S = "\<lambda>(i, j). sequence_as_specified d (cards h ! i) (cards h ! j)"
  have QS: "?Q p = ?S p" if "p \<in> set (index_pairs ?n)" for p
  proof -
    obtain i j where p: "p = (i, j)" by (cases p)
    with that have "i < ?n" "j < ?n" by (auto simp: index_pairs_set)
    then have "valid_card (cards h ! i)" "valid_card (cards h ! j)" using cs by simp_all
    then show ?thesis using d by (simp add: p is_valid_sequence_iff)
  qed
  then have f: "filter ?Q (index_pairs ?n) = filter ?S (index_pairs ?n)"
    by (intro filter_cong refl)
  have eq: "can_chi h d = map (\<lambda>(i, j). [cards h ! i, cards h ! j]) (filter ?S (index_pairs ?n))"
    unfolding can_chi_eq f ..
  have mem: "x \<in> set (can_chi h d) \<longleftrightarrow>
            (\<exists>i j. i < j \<and> j < ?n \<and> x = [cards h ! i, cards h ! j]
                   \<and> sequence_as_specified d (cards h ! i) (cards h ! j))" for x
    unfolding eq by (auto simp: index_pairs_set)
  have "distinct (filter ?S (index_pairs ?n))" by (simp add: index_pairs_distinct)
  then have "length (filter ?S (index_pairs ?n)) = card (set (filter ?S (index_pairs ?n)))"
    by (rule distinct_card [symmetric])
  also have "set (filter ?S (index_pairs ?n)) =
      {(i, j). i < j \<and> j < ?n \<and> sequence_as_specified d (cards h ! i) (cards h ! j)}"
    by (auto simp: index_pairs_set)
  finally have len: "length (can_chi h d) =
      card {(i, j). i < j \<and> j < ?n \<and> sequence_as_specified d (cards h ! i) (cards h ! j)}"
    unfolding eq by simp
  have rank: "\<forall>x \<in> set (can_chi h d). \<forall>c \<in> set x. is_uppercase c = is_uppercase d"
  proof (intro ballI)
    fix x c assume "x \<in> set (can_chi h d)" and c: "c \<in> set x"
    then obtain i j where "x = [cards h ! i, cards h ! j]"
        and "sequence_as_specified d (cards h ! i) (cards h ! j)"
      unfolding mem by blast
    with c show "is_uppercase c = is_uppercase d"
      by (auto simp: sequence_as_specified_def)
  qed
  from mem len rank show ?thesis by blast
qed


theorem can_chi_exact_witness:
  "valid_card (minor 3)
   \<and> list_all valid_card (cards chi_hand)
   \<and> can_chi chi_hand (minor 3) = [[minor 4, minor 5], [minor 5, minor 4]]
   \<and> can_chi chi_hand (minor 2) = [[minor 7, minor 10]]
   \<and> card {(i, j). i < j \<and> j < length (cards chi_hand)
                    \<and> sequence_as_specified (minor 3) (cards chi_hand ! i) (cards chi_hand ! j)}
       = 2"
proof -
  have a: "valid_card (minor 3)" by (simp add: valid_card_def minor_def)
  have b: "list_all valid_card (cards chi_hand)"
    by (simp add: chi_hand_def valid_card_def minor_def major_def)
  then have b': "\<forall>c \<in> set (cards chi_hand). valid_card c" by (simp add: list_all_iff)
  have c: "can_chi chi_hand (minor 3) = [[minor 4, minor 5], [minor 5, minor 4]]"
    by code_simp
  have d: "can_chi chi_hand (minor 2) = [[minor 7, minor 10]]"
    by code_simp
  from can_chi_exact [OF a b'] have "length (can_chi chi_hand (minor 3)) =
      card {(i, j). i < j \<and> j < length (cards chi_hand)
                    \<and> sequence_as_specified (minor 3) (cards chi_hand ! i) (cards chi_hand ! j)}"
    by blast
  then have e: "card {(i, j). i < j \<and> j < length (cards chi_hand)
                    \<and> sequence_as_specified (minor 3) (cards chi_hand ! i) (cards chi_hand ! j)}
       = 2"
    unfolding c by simp
  from a b c d e show ?thesis by (intro conjI)
qed

text \<open>
  C8. \<^verbatim>\<open>WinChecker.can_win\<close> on the address of a hand object in a heap that holds a
  well-formed hand there: the call returns \<^verbatim>\<open>(False, 0, None)\<close> with whatever fuel, as
  the query on the hand's values does; the heap only grows and every object that
  existed before the call is unchanged, so that the hand read from the heap after the
  call (concealed tiles, pending drawn tile, committed groups) is the hand read before
  it; and a second call, on the heap the first one leaves, returns the same result.
\<close>

theorem can_win_heap_non_mutating:
  assumes "hand_in h hand = Some hnd"
  shows "\<exists>h'. can_win_heap fuel hand h = (Inr (False, 0, None), h')
           \<and> can_win hnd = Inr (False, 0, None)
           \<and> length h \<le> length h'
           \<and> (\<forall>a < length h. h' ! a = h ! a)
           \<and> hand_in h' hand = Some hnd
           \<and> fst (can_win_heap fuel hand h') = fst (can_win_heap fuel hand h)"
proof -
  from can_win_heap_run [OF assms, of fuel] obtain h' where
    run: "can_win_heap fuel hand h = (Inr (False, 0, None), h')" by blast
  have pure: "can_win hnd = Inr (False, 0, None)"
    by (simp add: can_win_def win_query_def find_win_combination_None)
  note fr = framesD(1,2) [OF frames_can_win_heap [of "length h" fuel hand] order_refl run]
  from hand_in_extends [OF fr assms] have snap: "hand_in h' hand = Some hnd" .
  from can_win_heap_run [OF snap, of fuel] obtain h'' where
    "can_win_heap fuel hand h' = (Inr (False, 0, None), h'')" by blast
  with run have again: "fst (can_win_heap fuel hand h') = fst (can_win_heap fuel hand h)"
    by simp
  from run pure fr snap again show ?thesis by blast
qed

theorem can_win_heap_non_mutating_witness:
  "hand_in example_heap 7 =
     Some \<lparr>cards = [minor 2, minor 3], drawn_card = Some (minor 4),
           exposed_groups = [\<lparr>g_type = ''wei'', g_cards = [major 5, major 5, major 5],
                              g_is_concealed = True\<rparr>]\<rparr>
   \<and> fst (can_win_heap 21 7 example_heap) = Inr (False, 0, None)
   \<and> hand_in (snd (can_win_heap 21 7 example_heap)) 7 =
     Some \<lparr>cards = [minor 2, minor 3], drawn_card = Some (minor 4),
           exposed_groups = [\<lparr>g_type = ''wei'', g_cards = [major 5, major 5, major 5],
                              g_is_concealed = True\<rparr>]\<rparr>
   \<and> take 8 (snd (can_win_heap 21 7 example_heap)) = example_heap
   \<and> hand_in example_heap 2 =
     Some \<lparr>cards = [minor 1, minor 1, minor 1, minor 2, minor 3, minor 4, minor 5, minor 6,
                    minor 7, minor 8, minor 9, minor 10, major 1, major 2, major 3, major 4,
                    major 5, major 6, major 7, major 8],
           drawn_card = Some (major 9), exposed_groups = []\<rparr>
   \<and> fst (can_win_heap 21 2 example_heap) = Inr (False, 0, None)
   \<and> take 8 (snd (can_win_heap 21 2 example_heap)) = example_heap"
proof -
  let ?a = "\<lparr>cards = [minor 2, minor 3], drawn_card = Some (minor 4),
           exposed_groups = [\<lparr>g_type = ''wei'', g_cards = [major 5, major 5, major 5],
                              g_is_concealed = True\<rparr>]\<rparr>"
  let ?b = "\<lparr>cards = [minor 1, minor 1, minor 1, minor 2, minor 3, minor 4, minor 5, minor 6,
                    minor 7, minor 8, minor 9, minor 10, major 1, major 2, major 3, major 4,
                    major 5, major 6, major 7, major 8],
           drawn_card = Some (major 9), exposed_groups = []\<rparr>"
  have len: "length example_heap = 8" by (simp add: example_heap_def)
  have a: "hand_in example_heap 7 = Some ?a"
    by (simp add: example_heap_def hand_in_def cards_in_def groups_in_def group_in_def)
  have b: "hand_in example_heap 2 = Some ?b"
    by (simp add: example_heap_def hand_in_def cards_in_def groups_in_def group_in_def)
  have same: "take 8 h' = example_heap"
    if "length example_heap \<le> length h'" "\<forall>x < length example_heap. h' ! x = example_heap ! x"
    for h'
    using that unfolding len by (intro nth_equalityI) (simp_all add: len)
  from can_win_heap_non_mutating [OF a, of 21] obtain h1 where
    r1: "can_win_heap 21 7 example_heap = (Inr (False, 0, None), h1)"
    and f1: "length example_heap \<le> length h1"
      "\<forall>x < length example_heap. h1 ! x = example_heap ! x"
    and s1: "hand_in h1 7 = Some ?a"
    by blast
  from can_win_heap_non_mutating [OF b, of 21] obtain h2 where
    r2: "can_win_heap 21 2 example_heap = (Inr (False, 0, None), h2)"
    and f2: "length example_heap \<le> length h2"
      "\<forall>x < length example_heap. h2 ! x = example_heap ! x"
    by blast
  from a b r1 r2 s1 same [OF f1] same [OF f2] show ?thesis by simp
qed

end
